theory Spec2Isabelle
  imports Main
begin

section \<open>Values\<close>

text \<open>
  JavaScript values as far as src/Promise.js inspects them: primitives, plain objects
  (identity, the constructors on the prototype chain, the \<open>name\<close> and \<open>message\<close>
  properties), core promises (by address in the promise heap) and foreign thenables.
  The \<open>then\<close> method of a foreign thenable is user code: it is given as the list of
  calls it makes, in order, on the two capabilities it receives.
\<close>

datatype ctor = CObject | CError | CTypeError | CRangeError | CPromise | CUser nat

datatype val =
    Undefined
  | Null
  | BoolV bool
  | Num int
  | NaN
  | Str string
  | Obj nat "ctor list" "string option" "string option"
  | PromiseRef nat
  | Thenable nat "action list"
and action =
    ActResolve val
  | ActReject val
  | ActThrow val

datatype outcome = Return val | Throw val

text \<open>\<open>a === b\<close>: objects compare by identity, \<open>NaN\<close> equals nothing.\<close>

definition strict_eq :: "val \<Rightarrow> val \<Rightarrow> bool" where
  "strict_eq a b =
     (a \<noteq> NaN \<and> b \<noteq> NaN \<and>
      (case a of
         Obj i _ _ _ \<Rightarrow> (case b of Obj j _ _ _ \<Rightarrow> i = j | _ \<Rightarrow> False)
       | Thenable i _ \<Rightarrow> (case b of Thenable j _ \<Rightarrow> i = j | _ \<Rightarrow> False)
       | _ \<Rightarrow> a = b))"

definition truthy :: "val \<Rightarrow> bool" where
  "truthy v =
     (case v of
        Undefined \<Rightarrow> False
      | Null \<Rightarrow> False
      | BoolV b \<Rightarrow> b
      | Num n \<Rightarrow> n \<noteq> 0
      | NaN \<Rightarrow> False
      | Str s \<Rightarrow> s \<noteq> []
      | _ \<Rightarrow> True)"

text \<open>\<open>value && typeof value.then === 'function'\<close>\<close>

definition is_thenable :: "val \<Rightarrow> bool" where
  "is_thenable v = (case v of PromiseRef _ \<Rightarrow> True | Thenable _ _ \<Rightarrow> True | _ \<Rightarrow> False)"

text \<open>\<open>err instanceof type\<close> for a constructor \<open>type\<close>\<close>

definition instanceOf :: "val \<Rightarrow> ctor \<Rightarrow> bool" where
  "instanceOf v c =
     (case v of
        Obj _ chain _ _ \<Rightarrow> c \<in> set chain
      | PromiseRef _ \<Rightarrow> c = CPromise \<or> c = CObject
      | Thenable _ _ \<Rightarrow> c = CObject
      | _ \<Rightarrow> False)"

text \<open>\<open>err.name\<close> (read only behind the guard \<open>err &&\<close>)\<close>

definition prop_name :: "val \<Rightarrow> val" where
  "prop_name v = (case v of Obj _ _ (Some n) _ \<Rightarrow> Str n | _ \<Rightarrow> Undefined)"

section \<open>Functions, listeners, promises, zones\<close>

text \<open>
  The closures of the module, defunctionalised. \<open>ResolveFn p\<close> is the
  \<open>value => {...}\<close> closure that \<open>executePromiseTask\<close> builds for promise \<open>p\<close>,
  \<open>RejectFn p\<close> is \<open>handleRejection.bind(null, p)\<close>. \<open>UserFn i f\<close> is a user callback
  that returns or throws as \<open>f\<close> says; the index \<open>i\<close> names it in the trace.
  \<open>CatchType\<close> and \<open>CatchName\<close> are the two arrow functions of the two-argument
  \<open>catch\<close>, \<open>FinallyThen\<close> and \<open>FinallyErr\<close> those of \<open>finally\<close>, and
  \<open>ZoneWrap z f\<close> is \<open>nativeAwaitCompatibleWrap(f, z, false)\<close>.
\<close>

datatype fn =
    ResolveFn nat
  | RejectFn nat
  | UserFn nat "val \<Rightarrow> outcome"
  | CatchType ctor fn
  | CatchName val fn
  | FinallyThen fn
  | FinallyErr fn
  | ZoneWrap nat fn

record listener =
  onFulfilled :: "fn option"
  onRejected :: "fn option"
  resolve :: fn
  reject :: fn
  psd :: nat

text \<open>\<open>_state\<close>: \<open>None\<close> is \<open>null\<close> (pending), \<open>Some True\<close> fulfilled, \<open>Some False\<close> rejected.\<close>

record promise =
  p_state :: "bool option"
  p_value :: val
  p_listeners :: "listener list"
  p_PSD :: nat
  p_lib :: bool

record zone =
  z_parent :: nat
  z_ref :: int
  z_global :: bool

text \<open>An entry of \<open>microtickQueue\<close>: \<open>[callListener, [cb, promise, listener]]\<close>, or the
  arrow function \<open>()=>{ if (--numScheduledCalls === 0) finalizePhysicalTick(); }\<close>.\<close>

datatype task =
    CallListener fn nat listener
  | ScheduledCallDone

datatype event =
    Called nat val
  | Finalized nat
  | UnhandledRejection val nat

text \<open>
  The module's variables. Promises and zones live in two heaps addressed by position;
  allocation appends. \<open>scheduledPhysicalTicks\<close> counts the calls of
  \<open>schedulePhysicalTick\<close>, \<open>nextOid\<close> is the identity of the next object created by
  \<open>new\<close>, and \<open>trace\<close> records the calls of user callbacks, of zone finalizers and
  of \<open>globalError\<close>. Long stacks (\<open>debug\<close>) and \<open>follow\<close> with its tick finalizers
  are left out.
\<close>

record state =
  promises :: "promise list"
  zones :: "zone list"
  PSD :: nat
  microtickQueue :: "task list"
  numScheduledCalls :: int
  unhandledErrors :: "nat list"
  rejectingErrors :: "val list"
  isOutsideMicroTick :: bool
  needsNewPhysicalTick :: bool
  rejectionMapper :: "val \<Rightarrow> val"
  scheduledPhysicalTicks :: nat
  nextOid :: nat
  trace :: "event list"

type_synonym result = "(outcome \<times> state) option"

text \<open>The calls through which the module's functions are mutually recursive.\<close>

datatype call =
    CCall fn val
  | CEndMicroTick
  | CFinalize nat

section \<open>Control flow\<close>

definition ret :: "val \<Rightarrow> state \<Rightarrow> result" where
  "ret v s = Some (Return v, s)"

definition bind_r :: "result \<Rightarrow> (val \<Rightarrow> state \<Rightarrow> result) \<Rightarrow> result" where
  "bind_r m f =
     (case m of
        None \<Rightarrow> None
      | Some (Throw e, s) \<Rightarrow> Some (Throw e, s)
      | Some (Return v, s) \<Rightarrow> f v s)"

definition try_catch :: "result \<Rightarrow> (val \<Rightarrow> state \<Rightarrow> result) \<Rightarrow> result" where
  "try_catch m h =
     (case m of
        None \<Rightarrow> None
      | Some (Throw e, s) \<Rightarrow> h e s
      | Some (Return v, s) \<Rightarrow> Some (Return v, s))"

definition try_finally :: "result \<Rightarrow> (state \<Rightarrow> result) \<Rightarrow> result" where
  "try_finally m c =
     (case m of
        None \<Rightarrow> None
      | Some (out, s) \<Rightarrow>
          (case c s of
             None \<Rightarrow> None
           | Some (Throw e, s') \<Rightarrow> Some (Throw e, s')
           | Some (Return _, s') \<Rightarrow> Some (out, s')))"

fun forEach :: "('a \<Rightarrow> state \<Rightarrow> result) \<Rightarrow> 'a list \<Rightarrow> state \<Rightarrow> result" where
  "forEach f [] s = ret Undefined s"
| "forEach f (x # xs) s = bind_r (f x s) (\<lambda>_. forEach f xs)"

section \<open>The microtask scheduler\<close>

definition mirror :: "val \<Rightarrow> val" where
  \<comment> \<open>Modelled from the spec: \<open>mirror\<close> of ./chaining-functions, the identity.\<close>
  "mirror v = v"

definition globalPSD :: nat where
  "globalPSD = 0"

definition init :: state where
  "init = \<lparr> promises = [],
            zones = [\<lparr> z_parent = 0, z_ref = 0, z_global = True \<rparr>],
            PSD = globalPSD,
            microtickQueue = [],
            numScheduledCalls = 0,
            unhandledErrors = [],
            rejectingErrors = [],
            isOutsideMicroTick = True,
            needsNewPhysicalTick = True,
            rejectionMapper = mirror,
            scheduledPhysicalTicks = 0,
            nextOid = 0,
            trace = [] \<rparr>"

definition asap :: "task \<Rightarrow> state \<Rightarrow> state" where
  "asap t s =
     (let s1 = s\<lparr> microtickQueue := microtickQueue s @ [t] \<rparr>
      in if needsNewPhysicalTick s1
         then s1\<lparr> scheduledPhysicalTicks := Suc (scheduledPhysicalTicks s1),
                  needsNewPhysicalTick := False \<rparr>
         else s1)"

definition beginMicroTickScope :: "state \<Rightarrow> bool \<times> state" where
  "beginMicroTickScope s =
     (isOutsideMicroTick s, s\<lparr> isOutsideMicroTick := False, needsNewPhysicalTick := False \<rparr>)"

section \<open>Unhandled rejections\<close>

definition addPossiblyUnhandledError :: "nat \<Rightarrow> state \<Rightarrow> state" where
  "addPossiblyUnhandledError p s =
     (if \<not> list_ex (\<lambda>q. strict_eq (p_value (promises s ! q)) (p_value (promises s ! p)))
               (unhandledErrors s)
      then s\<lparr> unhandledErrors := unhandledErrors s @ [p] \<rparr>
      else s)"

text \<open>The loop \<open>while (i) if (unhandledErrors[--i]._value === promise._value) {splice; return}\<close>.\<close>

fun markLoop :: "nat \<Rightarrow> (nat \<Rightarrow> bool) \<Rightarrow> nat list \<Rightarrow> nat list" where
  "markLoop 0 P xs = xs"
| "markLoop (Suc i) P xs =
     (if P (xs ! i) then take i xs @ drop (Suc i) xs else markLoop i P xs)"

definition markErrorAsHandled :: "nat \<Rightarrow> state \<Rightarrow> state" where
  "markErrorAsHandled p s =
     s\<lparr> unhandledErrors :=
          markLoop (length (unhandledErrors s))
            (\<lambda>q. strict_eq (p_value (promises s ! q)) (p_value (promises s ! p)))
            (unhandledErrors s) \<rparr>"

text \<open>Every zone inherits \<open>onunhandled\<close> from the global zone: \<open>globalError\<close>, which
  reports the rejection to the host.\<close>

definition globalError :: "val \<Rightarrow> nat \<Rightarrow> state \<Rightarrow> state" where
  "globalError err p s = s\<lparr> trace := trace s @ [UnhandledRejection err p] \<rparr>"

definition finalizePhysicalTick :: "state \<Rightarrow> state" where
  "finalizePhysicalTick s =
     (let unhandledErrs = unhandledErrors s;
          s1 = s\<lparr> unhandledErrors := [] \<rparr>
      in fold (\<lambda>p. globalError (p_value (promises s1 ! p)) p) unhandledErrs s1)"

section \<open>Zones\<close>

definition switchToZone :: "nat \<Rightarrow> state \<Rightarrow> state" where
  "switchToZone targetZone s = (if targetZone = PSD s then s else s\<lparr> PSD := targetZone \<rparr>)"

definition set_ref :: "nat \<Rightarrow> int \<Rightarrow> state \<Rightarrow> state" where
  "set_ref z r s = s\<lparr> zones := (zones s)[z := (zones s ! z)\<lparr> z_ref := r \<rparr>] \<rparr>"

text \<open>\<open>--psd.ref || psd.finalize()\<close>\<close>

definition decRef :: "(call \<Rightarrow> state \<Rightarrow> result) \<Rightarrow> nat \<Rightarrow> state \<Rightarrow> result" where
  "decRef rec z s =
     (let r = z_ref (zones s ! z) - 1;
          s1 = set_ref z r s
      in if r = 0 then rec (CFinalize z) s1 else ret Undefined s1)"

text \<open>\<open>psd.finalize()\<close>: that of \<open>globalPSD\<close> reports its (foreign) \<open>unhandleds\<close>, of
  which the model has none; that of a zone made by \<open>newScope\<close> is
  \<open>--this.parent.ref || this.parent.finalize()\<close>.\<close>

definition finalize :: "(call \<Rightarrow> state \<Rightarrow> result) \<Rightarrow> nat \<Rightarrow> state \<Rightarrow> result" where
  "finalize rec z s =
     (let s1 = s\<lparr> trace := trace s @ [Finalized z] \<rparr>
      in if z_global (zones s1 ! z) then ret Undefined s1
         else decRef rec (z_parent (zones s1 ! z)) s1)"

definition usePSD :: "nat \<Rightarrow> (state \<Rightarrow> result) \<Rightarrow> state \<Rightarrow> result" where
  "usePSD z fn s =
     (let outerScope = PSD s
      in try_finally (fn (switchToZone z s)) (\<lambda>s'. ret Undefined (switchToZone outerScope s')))"

section \<open>Settlement and propagation\<close>

definition set_promise :: "nat \<Rightarrow> (promise \<Rightarrow> promise) \<Rightarrow> state \<Rightarrow> state" where
  "set_promise p f s = s\<lparr> promises := (promises s)[p := f (promises s ! p)] \<rparr>"

definition Listener :: "fn option \<Rightarrow> fn option \<Rightarrow> fn \<Rightarrow> fn \<Rightarrow> nat \<Rightarrow> listener" where
  "Listener onF onR res rej z =
     \<lparr> onFulfilled = onF, onRejected = onR, resolve = res, reject = rej, psd = z \<rparr>"

definition propagateToListener ::
  "(call \<Rightarrow> state \<Rightarrow> result) \<Rightarrow> nat \<Rightarrow> listener \<Rightarrow> state \<Rightarrow> result" where
  "propagateToListener rec p l s =
     (case p_state (promises s ! p) of
        None \<Rightarrow>
          ret Undefined (set_promise p (\<lambda>pr. pr\<lparr> p_listeners := p_listeners pr @ [l] \<rparr>) s)
      | Some st \<Rightarrow>
          (case (if st then onFulfilled l else onRejected l) of
             None \<Rightarrow> rec (CCall (if st then resolve l else reject l) (p_value (promises s ! p))) s
           | Some cb \<Rightarrow>
               (let s1 = set_ref (psd l) (z_ref (zones s ! psd l) + 1) s;
                    s2 = s1\<lparr> numScheduledCalls := numScheduledCalls s1 + 1 \<rparr>
                in ret Undefined (asap (CallListener cb p l) s2))))"

definition propagateAllListeners ::
  "(call \<Rightarrow> state \<Rightarrow> result) \<Rightarrow> nat \<Rightarrow> state \<Rightarrow> result" where
  "propagateAllListeners rec p s =
     (let listeners = p_listeners (promises s ! p);
          s1 = set_promise p (\<lambda>pr. pr\<lparr> p_listeners := [] \<rparr>) s
      in bind_r (forEach (propagateToListener rec p) listeners s1) (\<lambda>_ s2.
         bind_r (decRef rec (p_PSD (promises s2 ! p)) s2) (\<lambda>_ s3.
           if numScheduledCalls s3 = 0
           then ret Undefined
                  (asap ScheduledCallDone (s3\<lparr> numScheduledCalls := numScheduledCalls s3 + 1 \<rparr>))
           else ret Undefined s3)))"

text \<open>\<open>promise._lib && beginMicroTickScope()\<close>\<close>

definition libScope :: "nat \<Rightarrow> state \<Rightarrow> bool \<times> state" where
  "libScope p s = (if p_lib (promises s ! p) then beginMicroTickScope s else (False, s))"

definition handleRejection ::
  "(call \<Rightarrow> state \<Rightarrow> result) \<Rightarrow> nat \<Rightarrow> val \<Rightarrow> state \<Rightarrow> result" where
  "handleRejection rec p reason s =
     (let s1 = s\<lparr> rejectingErrors := rejectingErrors s @ [reason] \<rparr>
      in if p_state (promises s1 ! p) \<noteq> None then ret Undefined s1
         else
           (let (shouldExecuteTick, s2) = libScope p s1;
                reason' = rejectionMapper s2 reason;
                s3 = set_promise p (\<lambda>pr. pr\<lparr> p_state := Some False, p_value := reason' \<rparr>) s2;
                s4 = addPossiblyUnhandledError p s3
            in bind_r (propagateAllListeners rec p s4) (\<lambda>_ s5.
                 if shouldExecuteTick then rec CEndMicroTick s5 else ret Undefined s5)))"

text \<open>The body of a user function that calls the two capabilities it was given.\<close>

fun run_actions ::
  "(call \<Rightarrow> state \<Rightarrow> result) \<Rightarrow> fn \<Rightarrow> fn \<Rightarrow> action list \<Rightarrow> state \<Rightarrow> result" where
  "run_actions rec res rej [] s = ret Undefined s"
| "run_actions rec res rej (ActResolve v # as) s =
     bind_r (rec (CCall res v) s) (\<lambda>_. run_actions rec res rej as)"
| "run_actions rec res rej (ActReject v # as) s =
     bind_r (rec (CCall rej v) s) (\<lambda>_. run_actions rec res rej as)"
| "run_actions rec res rej (ActThrow v # as) s = Some (Throw v, s)"

text \<open>\<open>promise._then(onFulfilled, onRejected)\<close>\<close>

definition then_internal ::
  "(call \<Rightarrow> state \<Rightarrow> result) \<Rightarrow> nat \<Rightarrow> fn \<Rightarrow> fn \<Rightarrow> state \<Rightarrow> result" where
  "then_internal rec p onF onR s =
     propagateToListener rec p (Listener None None onF onR (PSD s)) s"

text \<open>\<open>fn\<close> is the executor already applied to the two capabilities of \<open>promise\<close>.\<close>

definition executePromiseTask ::
  "(call \<Rightarrow> state \<Rightarrow> result) \<Rightarrow> nat \<Rightarrow> (state \<Rightarrow> result) \<Rightarrow> state \<Rightarrow> result" where
  "executePromiseTask rec p fn s = try_catch (fn s) (\<lambda>ex. handleRejection rec p ex)"

definition newTypeError :: "string \<Rightarrow> state \<Rightarrow> val \<times> state" where
  "newTypeError msg s =
     (Obj (nextOid s) [CTypeError, CError, CObject] (Some ''TypeError'') (Some msg),
      s\<lparr> nextOid := Suc (nextOid s) \<rparr>)"

text \<open>The executor \<open>(resolve, reject) => value instanceof Promise ?
  value._then(resolve, reject) : value.then(resolve, reject)\<close>\<close>

definition adopt :: "(call \<Rightarrow> state \<Rightarrow> result) \<Rightarrow> nat \<Rightarrow> val \<Rightarrow> state \<Rightarrow> result" where
  "adopt rec p v s =
     (case v of
        PromiseRef q \<Rightarrow> then_internal rec q (ResolveFn p) (RejectFn p) s
      | Thenable _ acts \<Rightarrow> run_actions rec (ResolveFn p) (RejectFn p) acts s
      | _ \<Rightarrow> (let (e, s1) = newTypeError ''value.then is not a function'' s
              in Some (Throw e, s1)))"

text \<open>The \<open>value => {...}\<close> closure of \<open>executePromiseTask\<close>.\<close>

definition resolveFn ::
  "(call \<Rightarrow> state \<Rightarrow> result) \<Rightarrow> nat \<Rightarrow> val \<Rightarrow> state \<Rightarrow> result" where
  "resolveFn rec p v s =
     (if p_state (promises s ! p) \<noteq> None then ret Undefined s
      else if strict_eq v (PromiseRef p)
      then (let (e, s1) = newTypeError ''A promise cannot be resolved with itself.'' s
            in Some (Throw e, s1))
      else
        (let (shouldExecuteTick, s1) = libScope p s
         in bind_r
              (if is_thenable v then executePromiseTask rec p (adopt rec p v) s1
               else propagateAllListeners rec p
                      (set_promise p (\<lambda>pr. pr\<lparr> p_state := Some True, p_value := v \<rparr>) s1))
              (\<lambda>_ s2. if shouldExecuteTick then rec CEndMicroTick s2 else ret Undefined s2)))"

section \<open>Construction\<close>

definition alloc :: "promise \<Rightarrow> state \<Rightarrow> nat \<times> state" where
  "alloc pr s = (length (promises s), s\<lparr> promises := promises s @ [pr] \<rparr>)"

text \<open>\<open>new Promise(fn)\<close> for a function \<open>fn\<close>, given as its body for each promise.\<close>

definition PromiseCtor ::
  "(call \<Rightarrow> state \<Rightarrow> result) \<Rightarrow> (nat \<Rightarrow> state \<Rightarrow> result) \<Rightarrow> state \<Rightarrow> result" where
  "PromiseCtor rec fn s =
     (let zone = PSD s;
          (p, s1) = alloc \<lparr> p_state = None, p_value = Null, p_listeners = [],
                           p_PSD = zone, p_lib = False \<rparr> s;
          s2 = set_ref zone (z_ref (zones s1 ! zone) + 1) s1
      in bind_r (executePromiseTask rec p (fn p) s2) (\<lambda>_. ret (PromiseRef p)))"

text \<open>\<open>new Promise(INTERNAL, state, value)\<close>\<close>

definition PromiseInternal ::
  "(call \<Rightarrow> state \<Rightarrow> result) \<Rightarrow> bool \<Rightarrow> val \<Rightarrow> state \<Rightarrow> result" where
  "PromiseInternal rec st v s =
     (let (p, s1) = alloc \<lparr> p_state = Some st, p_value = v, p_listeners = [],
                           p_PSD = PSD s, p_lib = False \<rparr> s
      in bind_r (if st = False then handleRejection rec p v s1 else ret Undefined s1)
           (\<lambda>_. ret (PromiseRef p)))"

definition PromiseReject :: "(call \<Rightarrow> state \<Rightarrow> result) \<Rightarrow> val \<Rightarrow> state \<Rightarrow> result" where
  "PromiseReject rec reason s = PromiseInternal rec False reason s"

text \<open>Calling a function value with one argument.\<close>

definition callFn :: "(call \<Rightarrow> state \<Rightarrow> result) \<Rightarrow> fn \<Rightarrow> val \<Rightarrow> state \<Rightarrow> result" where
  "callFn rec f v s =
     (case f of
        ResolveFn p \<Rightarrow> resolveFn rec p v s
      | RejectFn p \<Rightarrow> handleRejection rec p v s
      | UserFn i body \<Rightarrow> Some (body v, s\<lparr> trace := trace s @ [Called i v] \<rparr>)
      | CatchType type handler \<Rightarrow>
          (if instanceOf v type then rec (CCall handler v) s else PromiseReject rec v s)
      | CatchName type handler \<Rightarrow>
          (if truthy v \<and> strict_eq (prop_name v) type then rec (CCall handler v) s
           else PromiseReject rec v s)
      | FinallyThen onFinally \<Rightarrow> bind_r (rec (CCall onFinally Undefined) s) (\<lambda>_. ret v)
      | FinallyErr onFinally \<Rightarrow>
          bind_r (rec (CCall onFinally Undefined) s) (\<lambda>_. PromiseReject rec v)
      | ZoneWrap zone g \<Rightarrow>
          (let outerZone = PSD s
           in try_finally (rec (CCall g v) (switchToZone zone s))
                (\<lambda>s'. ret Undefined (switchToZone outerZone s'))))"

definition scheduledCallDone :: "state \<Rightarrow> state" where
  "scheduledCallDone s =
     (let s1 = s\<lparr> numScheduledCalls := numScheduledCalls s - 1 \<rparr>
      in if numScheduledCalls s1 = 0 then finalizePhysicalTick s1 else s1)"

definition callListener ::
  "(call \<Rightarrow> state \<Rightarrow> result) \<Rightarrow> fn \<Rightarrow> nat \<Rightarrow> listener \<Rightarrow> state \<Rightarrow> result" where
  "callListener rec cb p l s =
     (let v = p_value (promises s ! p)
      in try_finally
           (try_catch
              (if p_state (promises s ! p) = Some True
               then bind_r (rec (CCall cb v) s) (\<lambda>r. rec (CCall (resolve l) r))
               else
                 (let s1 = (if rejectingErrors s \<noteq> [] then s\<lparr> rejectingErrors := [] \<rparr> else s)
                  in bind_r (rec (CCall cb v) s1) (\<lambda>r s2.
                       rec (CCall (resolve l) r)
                         (if \<not> list_ex (\<lambda>x. strict_eq x v) (rejectingErrors s2)
                          then markErrorAsHandled p s2 else s2))))
              (\<lambda>e. rec (CCall (reject l) e)))
           (\<lambda>s'. decRef rec (psd l) (scheduledCallDone s')))"

definition runTask :: "(call \<Rightarrow> state \<Rightarrow> result) \<Rightarrow> task \<Rightarrow> state \<Rightarrow> result" where
  "runTask rec t s =
     (case t of
        CallListener cb p l \<Rightarrow> callListener rec cb p l s
      | ScheduledCallDone \<Rightarrow> ret Undefined (scheduledCallDone s))"

definition endMicroTickScope :: "(call \<Rightarrow> state \<Rightarrow> result) \<Rightarrow> state \<Rightarrow> result" where
  "endMicroTickScope rec s =
     (if microtickQueue s \<noteq> []
      then (let callbacks = microtickQueue s
            in bind_r (forEach (runTask rec) callbacks (s\<lparr> microtickQueue := [] \<rparr>))
                 (\<lambda>_. rec CEndMicroTick))
      else ret Undefined (s\<lparr> isOutsideMicroTick := True, needsNewPhysicalTick := True \<rparr>))"

text \<open>The recursion of the module, by fuel: \<open>None\<close> is "no result within \<open>n\<close> nested calls".\<close>

primrec exec :: "nat \<Rightarrow> call \<Rightarrow> state \<Rightarrow> result" where
  "exec 0 c s = None"
| "exec (Suc n) c s =
     (case c of
        CCall f v \<Rightarrow> callFn (exec n) f v s
      | CEndMicroTick \<Rightarrow> endMicroTickScope (exec n) s
      | CFinalize z \<Rightarrow> finalize (exec n) z s)"

section \<open>The methods of a promise\<close>

text \<open>The \<open>then\<close> of the source, \<open>globalPSD.env.dthen\<close>.\<close>

definition then_orig ::
  "(call \<Rightarrow> state \<Rightarrow> result) \<Rightarrow> nat \<Rightarrow> fn option \<Rightarrow> fn option \<Rightarrow> state \<Rightarrow> result" where
  "then_orig rec this onF onR s =
     PromiseCtor rec
       (\<lambda>rv s'. propagateToListener rec this
                  (Listener onF onR (ResolveFn rv) (RejectFn rv) (PSD s')) s') s"

text \<open>\<open>nativeAwaitCompatibleWrap(fn, zone, possibleAwait)\<close> with \<open>possibleAwait\<close> false:
  what is not a function is passed on as it is.\<close>

definition nativeAwaitCompatibleWrap :: "fn option \<Rightarrow> nat \<Rightarrow> fn option" where
  "nativeAwaitCompatibleWrap f zone = (case f of None \<Rightarrow> None | Some g \<Rightarrow> Some (ZoneWrap zone g))"

text \<open>
  \<open>promise.then(onFulfilled, onRejected)\<close>. \<open>switchToZone\<close> installs the \<open>env.dthen\<close> of
  the zone it enters as \<open>Promise.prototype.then\<close>: the \<open>then\<close> of the source in the
  global zone, and \<open>getPatchedPromiseThen(globalEnv.dthen, zone)\<close> in a zone made by
  \<open>newScope\<close>, where \<open>zone\<close> is then the active zone and \<open>possibleAwait\<close> is false.
\<close>

definition Promise_then ::
  "(call \<Rightarrow> state \<Rightarrow> result) \<Rightarrow> nat \<Rightarrow> fn option \<Rightarrow> fn option \<Rightarrow> state \<Rightarrow> result" where
  "Promise_then rec this onF onR s =
     (if z_global (zones s ! PSD s) then then_orig rec this onF onR s
      else then_orig rec this (nativeAwaitCompatibleWrap onF (PSD s))
             (nativeAwaitCompatibleWrap onR (PSD s)) s)"

text \<open>The arguments of \<open>catch\<close>: one (\<open>arguments.length === 1\<close>), or a type and a
  handler, where the type is a constructor (\<open>typeof type === 'function'\<close>) or any other
  value.\<close>

datatype catch_type = TypeFn ctor | TypeVal val

datatype catch_args = Catch1 "fn option" | Catch2 catch_type fn

definition Promise_catch ::
  "(call \<Rightarrow> state \<Rightarrow> result) \<Rightarrow> nat \<Rightarrow> catch_args \<Rightarrow> state \<Rightarrow> result" where
  "Promise_catch rec this args s =
     (case args of
        Catch1 onRej \<Rightarrow> Promise_then rec this None onRej s
      | Catch2 (TypeFn type) handler \<Rightarrow>
          Promise_then rec this None (Some (CatchType type handler)) s
      | Catch2 (TypeVal type) handler \<Rightarrow>
          Promise_then rec this None (Some (CatchName type handler)) s)"

definition Promise_finally ::
  "(call \<Rightarrow> state \<Rightarrow> result) \<Rightarrow> nat \<Rightarrow> fn \<Rightarrow> state \<Rightarrow> result" where
  "Promise_finally rec this onFinally s =
     Promise_then rec this (Some (FinallyThen onFinally)) (Some (FinallyErr onFinally)) s"

section \<open>Static operations\<close>

definition Promise_resolve :: "(call \<Rightarrow> state \<Rightarrow> result) \<Rightarrow> val \<Rightarrow> state \<Rightarrow> result" where
  "Promise_resolve rec v s =
     (case v of
        PromiseRef _ \<Rightarrow> ret v s
      | Thenable _ acts \<Rightarrow>
          PromiseCtor rec (\<lambda>p. run_actions rec (ResolveFn p) (RejectFn p) acts) s
      | _ \<Rightarrow> PromiseInternal rec True v s)"

definition Promise_race :: "(call \<Rightarrow> state \<Rightarrow> result) \<Rightarrow> val list \<Rightarrow> state \<Rightarrow> result" where
  "Promise_race rec values s =
     PromiseCtor rec
       (\<lambda>p. forEach
              (\<lambda>v s1. bind_r (Promise_resolve rec v s1) (\<lambda>q s2.
                 case q of
                   PromiseRef qi \<Rightarrow>
                     Promise_then rec qi (Some (ResolveFn p)) (Some (RejectFn p)) s2
                 | _ \<Rightarrow> ret Undefined s2))
              values) s"

section \<open>Ticks, scopes and wrapped functions\<close>

text \<open>\<open>physicalTick()\<close>: the statement \<open>beginMicroTickScope() && endMicroTickScope()\<close>; the
  function has no \<open>return\<close>, a call evaluates to \<open>undefined\<close>.\<close>

definition physicalTick :: "(call \<Rightarrow> state \<Rightarrow> result) \<Rightarrow> state \<Rightarrow> result" where
  "physicalTick rec s =
     (let (wasRootExec, s1) = beginMicroTickScope s
      in if wasRootExec then endMicroTickScope rec s1 else ret Undefined s1)"

text \<open>\<open>newScope(fn)\<close> without \<open>props\<close>; \<open>fn\<close> is the body of the user's function.\<close>

definition newScope ::
  "(call \<Rightarrow> state \<Rightarrow> result) \<Rightarrow> (state \<Rightarrow> result) \<Rightarrow> state \<Rightarrow> result" where
  "newScope rec fn s =
     (let parent = PSD s;
          z = length (zones s);
          s1 = s\<lparr> zones := zones s @ [\<lparr> z_parent = parent, z_ref = 0, z_global = False \<rparr>] \<rparr>;
          s2 = set_ref parent (z_ref (zones s1 ! parent) + 1) s1
      in bind_r (usePSD z fn s2) (\<lambda>rv s3.
           if z_ref (zones s3 ! z) = 0
           then bind_r (finalize rec z s3) (\<lambda>_. ret rv)
           else ret rv s3))"

text \<open>
  \<open>wrap(fn, errorCatcher)\<close> reads \<open>PSD\<close> and returns a function; \<open>wrapped\<close> is a call of
  that function, \<open>zone\<close> being the zone \<open>wrap\<close> had read. \<open>errorCatcher\<close> is \<open>None\<close> when
  the argument is missing.
\<close>

definition wrapped ::
  "(call \<Rightarrow> state \<Rightarrow> result) \<Rightarrow> nat \<Rightarrow> (state \<Rightarrow> result) \<Rightarrow> fn option \<Rightarrow> state \<Rightarrow> result" where
  "wrapped rec zone fn errorCatcher s =
     (let (wasRootExec, s1) = beginMicroTickScope s;
          outerScope = PSD s1
      in try_finally
           (try_catch (fn (switchToZone zone s1))
              (\<lambda>e s2. case errorCatcher of
                         None \<Rightarrow> ret Undefined s2
                       | Some c \<Rightarrow> bind_r (rec (CCall c e) s2) (\<lambda>_. ret Undefined)))
           (\<lambda>s3. let s4 = switchToZone outerScope s3
                  in if wasRootExec then endMicroTickScope rec s4 else ret Undefined s4))"

definition wrap ::
  "(call \<Rightarrow> state \<Rightarrow> result) \<Rightarrow> (state \<Rightarrow> result) \<Rightarrow> fn option \<Rightarrow> state \<Rightarrow> (state \<Rightarrow> result)" where
  "wrap rec fn errorCatcher s = wrapped rec (PSD s) fn errorCatcher"

section \<open>Predicates of the specification\<close>

definition is_Finalized :: "event \<Rightarrow> bool" where
  "is_Finalized e = (case e of Finalized _ \<Rightarrow> True | _ \<Rightarrow> False)"

definition zones_wf :: "state \<Rightarrow> bool" where
  "zones_wf s =
     (\<forall>z\<in>{..<length (zones s)}. \<not> z_global (zones s ! z) \<longrightarrow> z_parent (zones s ! z) < z)"

definition same_shape :: "zone list \<Rightarrow> zone list \<Rightarrow> bool" where
  "same_shape Z Z' = (length Z' = length Z \<and>
      (\<forall>z<length Z. z_parent (Z' ! z) = z_parent (Z ! z) \<and> z_global (Z' ! z) = z_global (Z ! z)))"

definition frame :: "state \<Rightarrow> state \<Rightarrow> bool" where
  "frame s s' =
     (\<exists>Z evs. s' = s\<lparr> zones := Z, trace := trace s @ evs \<rparr> \<and> same_shape (zones s) Z \<and>
        list_all is_Finalized evs)"

text \<open>The last statement of \<open>propagateAllListeners\<close>.\<close>

definition tick_end_check :: "state \<Rightarrow> state" where
  "tick_end_check s =
     (if numScheduledCalls s = 0
      then asap ScheduledCallDone (s\<lparr> numScheduledCalls := numScheduledCalls s + 1 \<rparr>)
      else s)"

text \<open>The writes of \<open>handleRejection\<close> on a pending promise that has \<open>_lib\<close> unset.\<close>

definition rejected_state :: "nat \<Rightarrow> val \<Rightarrow> state \<Rightarrow> state" where
  "rejected_state q reason s =
     addPossiblyUnhandledError q
       (set_promise q (\<lambda>pr. pr\<lparr> p_state := Some False, p_value := rejectionMapper s reason \<rparr>)
          (s\<lparr> rejectingErrors := rejectingErrors s @ [reason] \<rparr>))"

text \<open>The state after \<open>Promise.resolve(1)\<close> in the initial state.\<close>

definition fulfilled1 :: state where
  "fulfilled1 = init\<lparr> promises := [\<lparr> p_state = Some True, p_value = Num 1, p_listeners = [],
                                       p_PSD = 0, p_lib = False \<rparr>] \<rparr>"

text \<open>The promise that \<open>new Promise(fn)\<close> allocates in zone \<open>z\<close>.\<close>

definition pending_promise :: "nat \<Rightarrow> promise" where
  "pending_promise z =
     \<lparr> p_state = None, p_value = Null, p_listeners = [], p_PSD = z, p_lib = False \<rparr>"

text \<open>The state in which \<open>then\<close> returns when the promise is settled and the handler
  \<open>cb\<close> for its outcome is a function: the new promise is allocated and pins the active
  zone, and the call of \<open>cb\<close> is scheduled.\<close>

definition then_scheduled :: "nat \<Rightarrow> fn \<Rightarrow> listener \<Rightarrow> state \<Rightarrow> state" where
  "then_scheduled this cb l s =
     (let s1 = s\<lparr> promises := promises s @ [pending_promise (PSD s)] \<rparr>;
          s2 = set_ref (PSD s) (z_ref (zones s1 ! PSD s) + 1) s1;
          s3 = set_ref (psd l) (z_ref (zones s2 ! psd l) + 1) s2;
          s4 = s3\<lparr> numScheduledCalls := numScheduledCalls s3 + 1 \<rparr>
      in asap (CallListener cb this l) s4)"

text \<open>\<open>k\<close> physical ticks, one after the other.\<close>

fun ticks :: "nat \<Rightarrow> nat \<Rightarrow> state \<Rightarrow> result" where
  "ticks n 0 s = ret Undefined s"
| "ticks n (Suc k) s = bind_r (physicalTick (exec n) s) (\<lambda>_. ticks n k)"

text \<open>Between two states no settled promise has changed its state or its value.\<close>

definition frozen :: "state \<Rightarrow> state \<Rightarrow> bool" where
  "frozen s s' =
     (length (promises s) \<le> length (promises s') \<and>
      (\<forall>p\<in>{..<length (promises s)}.
         p_state (promises s ! p) \<noteq> None \<longrightarrow>
         p_state (promises s' ! p) = p_state (promises s ! p) \<and>
         p_value (promises s' ! p) = p_value (promises s ! p)))"

text \<open>Every result of a computation is a state in which the settled promises of \<open>s0\<close>
  are as they were.\<close>

definition keeps :: "state \<Rightarrow> result \<Rightarrow> bool" where
  "keeps s0 m = (\<forall>out s'. m = Some (out, s') \<longrightarrow> frozen s0 s')"

definition rec_keeps :: "(call \<Rightarrow> state \<Rightarrow> result) \<Rightarrow> bool" where
  "rec_keeps rec = (\<forall>c s0 s. frozen s0 s \<longrightarrow> keeps s0 (rec c s))"

text \<open>
  What a client of the module can do: construct a promise with an executor that calls its
  capabilities, call a capability it has kept, register handlers, use the static
  operations, and let a physical tick happen.
\<close>

datatype op =
    New "action list"
  | Resolve nat val
  | Reject nat val
  | Then nat "fn option" "fn option"
  | Catch nat catch_args
  | Finally nat fn
  | StaticResolve val
  | StaticReject val
  | Race "val list"
  | SetMapper "val \<Rightarrow> val"
  | Tick

definition run_op :: "nat \<Rightarrow> op \<Rightarrow> state \<Rightarrow> result" where
  "run_op n c s =
     (case c of
        New acts \<Rightarrow>
          PromiseCtor (exec n) (\<lambda>p. run_actions (exec n) (ResolveFn p) (RejectFn p) acts) s
      | Resolve p v \<Rightarrow> exec n (CCall (ResolveFn p) v) s
      | Reject p v \<Rightarrow> exec n (CCall (RejectFn p) v) s
      | Then p onF onR \<Rightarrow> Promise_then (exec n) p onF onR s
      | Catch p args \<Rightarrow> Promise_catch (exec n) p args s
      | Finally p onFinally \<Rightarrow> Promise_finally (exec n) p onFinally s
      | StaticResolve v \<Rightarrow> Promise_resolve (exec n) v s
      | StaticReject v \<Rightarrow> PromiseReject (exec n) v s
      | Race vs \<Rightarrow> Promise_race (exec n) vs s
      | SetMapper f \<Rightarrow> ret Undefined (s\<lparr> rejectionMapper := f \<rparr>)
      | Tick \<Rightarrow> physicalTick (exec n) s)"

text \<open>A client's calls one after the other; an exception thrown to the client ends the
  call that threw it.\<close>

fun run_ops :: "nat \<Rightarrow> op list \<Rightarrow> state \<Rightarrow> state option" where
  "run_ops n [] s = Some s"
| "run_ops n (c # cs) s =
     (case run_op n c s of None \<Rightarrow> None | Some (out, s1) \<Rightarrow> run_ops n cs s1)"

text \<open>The state after \<open>var res, rej; var p = new Promise((a, b) => { res = a; rej = b; });
  p.then(v => v); res(1);\<close>, followed by \<open>res(2); rej('late'); res(p);\<close>, a \<open>then\<close> and a
  tick.\<close>

definition settled_once :: "state option" where
  "settled_once = run_ops 4 [New [], Then 0 (Some (UserFn 0 Return)) None, Resolve 0 (Num 1)] init"

definition late_calls :: "op list" where
  "late_calls = [Resolve 0 (Num 2), Reject 0 (Str ''late''), Resolve 0 (PromiseRef 0),
                 Then 0 None None, Tick]"

text \<open>The reason of promise \<open>q\<close>.\<close>

definition reason_of :: "state \<Rightarrow> nat \<Rightarrow> val" where
  "reason_of s q = p_value (promises s ! q)"

text \<open>No two entries of a list of promises have the same reason (\<open>===\<close>).\<close>

fun one_per_reason :: "(nat \<Rightarrow> val) \<Rightarrow> nat list \<Rightarrow> bool" where
  "one_per_reason r [] = True"
| "one_per_reason r (q # qs) = (\<not> list_ex (\<lambda>q'. strict_eq (r q) (r q')) qs \<and> one_per_reason r qs)"


text \<open>The values with which the user callback \<open>i\<close> has been called, in order.\<close>

fun calls_of :: "nat \<Rightarrow> event list \<Rightarrow> val list" where
  "calls_of i [] = []"
| "calls_of i (e # es) =
     (case e of
        Called j v \<Rightarrow> (if j = i then v # calls_of i es else calls_of i es)
      | _ \<Rightarrow> calls_of i es)"




text \<open>The state in which the drain of the queue calls the first scheduled listener of a
  promise in state \<open>st\<close>.\<close>

definition drain_start :: "bool \<Rightarrow> state \<Rightarrow> state" where
  "drain_start st s =
     (let s1 = s\<lparr> isOutsideMicroTick := False, needsNewPhysicalTick := False,
                  microtickQueue := [] \<rparr>
      in if st then s1 else s1\<lparr> rejectingErrors := [] \<rparr>)"








text \<open>The promises whose capabilities a function value holds.\<close>

fun caps :: "fn \<Rightarrow> nat set" where
  "caps (ResolveFn p) = {p}"
| "caps (RejectFn p) = {p}"
| "caps (UserFn i body) = {}"
| "caps (CatchType c h) = caps h"
| "caps (CatchName t h) = caps h"
| "caps (FinallyThen h) = caps h"
| "caps (FinallyErr h) = caps h"
| "caps (ZoneWrap z g) = caps g"

definition ocaps :: "fn option \<Rightarrow> nat set" where
  "ocaps f = (case f of None \<Rightarrow> {} | Some g \<Rightarrow> caps g)"

definition lcaps :: "listener \<Rightarrow> nat set" where
  "lcaps l = ocaps (onFulfilled l) \<union> ocaps (onRejected l) \<union> caps (resolve l) \<union> caps (reject l)"

definition tcaps :: "task \<Rightarrow> nat set" where
  "tcaps t = (case t of CallListener cb p l \<Rightarrow> caps cb \<union> lcaps l | ScheduledCallDone \<Rightarrow> {})"

definition ccaps :: "call \<Rightarrow> nat set" where
  "ccaps c = (case c of CCall f v \<Rightarrow> caps f | _ \<Rightarrow> {})"

text \<open>The promises whose capabilities may be held in state \<open>s\<close> when nobody holds those of
  the promises in \<open>P\<close>: the allocated ones outside \<open>P\<close>.\<close>

definition may_hold :: "nat set \<Rightarrow> state \<Rightarrow> nat set" where
  "may_hold P s = {..<length (promises s)} - P"

text \<open>
  A well-formed state in which nobody holds a capability of a promise in \<open>P\<close>: every
  capability held by a listener or by a queued task is one of an allocated promise outside
  \<open>P\<close>; the promises in \<open>P\<close> are allocated and pending; and the promises listed in
  \<open>unhandledErrors\<close> are allocated and settled, no two of them with the same reason.
\<close>

definition sound :: "nat set \<Rightarrow> state \<Rightarrow> bool" where
  "sound P s =
     ((\<forall>i\<in>{..<length (promises s)}.
         \<forall>l\<in>set (p_listeners (promises s ! i)). lcaps l \<subseteq> may_hold P s) \<and>
      (\<forall>t\<in>set (microtickQueue s). tcaps t \<subseteq> may_hold P s) \<and>
      (\<forall>q\<in>P. q < length (promises s) \<and> p_state (promises s ! q) = None) \<and>
      (\<forall>q\<in>set (unhandledErrors s). q < length (promises s) \<and> p_state (promises s ! q) \<noteq> None) \<and>
      one_per_reason (reason_of s) (unhandledErrors s))"

text \<open>Every result of a computation started in \<open>s\<close> is such a state, with the promises of
  \<open>s\<close> still allocated.\<close>

definition safe :: "nat set \<Rightarrow> state \<Rightarrow> result \<Rightarrow> bool" where
  "safe P s m =
     (\<forall>out s'. m = Some (out, s') \<longrightarrow> sound P s' \<and> length (promises s) \<le> length (promises s'))"

definition rec_safe :: "nat set \<Rightarrow> (call \<Rightarrow> state \<Rightarrow> result) \<Rightarrow> bool" where
  "rec_safe P rec = (\<forall>c s. sound P s \<longrightarrow> ccaps c \<subseteq> may_hold P s \<longrightarrow> safe P s (rec c s))"

text \<open>The capabilities a call of the client hands over.\<close>

fun opcaps :: "op \<Rightarrow> nat set" where
  "opcaps (New acts) = {}"
| "opcaps (Resolve p v) = {p}"
| "opcaps (Reject p v) = {p}"
| "opcaps (Then p onF onR) = ocaps onF \<union> ocaps onR"
| "opcaps (Catch p (Catch1 onRej)) = ocaps onRej"
| "opcaps (Catch p (Catch2 type handler)) = caps handler"
| "opcaps (Finally p onFinally) = caps onFinally"
| "opcaps (StaticResolve v) = {}"
| "opcaps (StaticReject v) = {}"
| "opcaps (Race vs) = {}"
| "opcaps (SetMapper f) = {}"
| "opcaps Tick = {}"

text \<open>The states a client can bring about from the initial one, with the capabilities of
  promises that exist.\<close>

inductive reachable :: "state \<Rightarrow> bool" where
  start: "reachable init"
| step: "reachable s \<Longrightarrow> opcaps c \<subseteq> {..<length (promises s)} \<Longrightarrow>
         run_op n c s = Some (out, s') \<Longrightarrow> reachable s'"

text \<open>A client's calls that hand over only capabilities of promises that exist when the
  call is made.\<close>

fun ops_ok :: "nat \<Rightarrow> op list \<Rightarrow> state \<Rightarrow> bool" where
  "ops_ok n [] s = True"
| "ops_ok n (c # cs) s =
     (opcaps c \<subseteq> {..<length (promises s)} \<and>
      (case run_op n c s of None \<Rightarrow> True | Some (out, s1) \<Rightarrow> ops_ok n cs s1))"

text \<open>\<open>Promise.resolve(1).then(v => v)\<close>: a listener is scheduled.\<close>

definition busy :: "op list" where
  "busy = [StaticResolve (Num 1), Then 0 (Some (UserFn 0 Return)) None]"

section \<open>Zone finalizers terminate\<close>

lemma same_shape_refl: "same_shape Z Z"
  by (simp add: same_shape_def)

lemma same_shape_trans: "same_shape Z Z1 \<Longrightarrow> same_shape Z1 Z2 \<Longrightarrow> same_shape Z Z2"
  by (simp add: same_shape_def)

lemma same_shape_update: "same_shape Z (Z[z := (Z ! z)\<lparr> z_ref := r \<rparr>])"
  by (cases "z < length Z") (auto simp: same_shape_def nth_list_update)


lemma frame_trans:
  assumes "frame s s1" and "frame s1 s2"
  shows "frame s s2"
proof -
  from assms(1) obtain Z evs where
    s1: "s1 = s\<lparr> zones := Z, trace := trace s @ evs \<rparr>"
    and sh1: "same_shape (zones s) Z" and ev1: "list_all is_Finalized evs"
    unfolding frame_def by blast
  from assms(2) obtain Z' evs' where
    s2: "s2 = s1\<lparr> zones := Z', trace := trace s1 @ evs' \<rparr>"
    and sh2: "same_shape (zones s1) Z'" and ev2: "list_all is_Finalized evs'"
    unfolding frame_def by blast
  have "s2 = s\<lparr> zones := Z', trace := trace s @ (evs @ evs') \<rparr>"
    by (simp add: s1 s2)
  moreover have "same_shape (zones s) Z'"
    using sh1 sh2 by (simp add: s1 same_shape_def)
  moreover have "list_all is_Finalized (evs @ evs')"
    using ev1 ev2 by simp
  ultimately show ?thesis
    unfolding frame_def by blast
qed

lemma frame_set_ref: "frame s (set_ref z r s)"
  unfolding frame_def set_ref_def
  by (rule exI [of _ "(zones s)[z := (zones s ! z)\<lparr> z_ref := r \<rparr>]"], rule exI [of _ "[]"])
     (simp add: same_shape_update)

lemma frame_Finalized: "frame s (s\<lparr> trace := trace s @ [Finalized z] \<rparr>)"
  unfolding frame_def
  by (rule exI [of _ "zones s"], rule exI [of _ "[Finalized z]"])
     (simp add: same_shape_refl is_Finalized_def)

lemma zones_wf_frame: "frame s s' \<Longrightarrow> zones_wf s \<Longrightarrow> zones_wf s'"
  by (auto simp: frame_def zones_wf_def same_shape_def)

lemma frame_length: "frame s s' \<Longrightarrow> length (zones s') = length (zones s)"
  by (auto simp: frame_def same_shape_def)

lemma finalize_total:
  "zones_wf s \<Longrightarrow> z < length (zones s) \<Longrightarrow> z < n \<Longrightarrow>
   \<exists>s'. exec n (CFinalize z) s = Some (Return Undefined, s') \<and> frame s s'"
proof (induction z arbitrary: s n rule: less_induct)
  case (less z)
  from less.prems(3) obtain m where n: "n = Suc m" and zm: "z \<le> m"
    by (cases n) auto
  let ?s1 = "s\<lparr> trace := trace s @ [Finalized z] \<rparr>"
  have f1: "frame s ?s1" by (rule frame_Finalized)
  show ?case
  proof (cases "z_global (zones s ! z)")
    case True
    then have "exec n (CFinalize z) s = Some (Return Undefined, ?s1)"
      by (simp add: n finalize_def ret_def)
    with f1 show ?thesis by blast
  next
    case False
    let ?par = "z_parent (zones s ! z)"
    let ?r = "z_ref (zones s ! ?par) - 1"
    let ?s2 = "set_ref ?par ?r ?s1"
    from False less.prems(1,2) have par: "?par < z"
      by (simp add: zones_wf_def)
    have f2: "frame s ?s2"
      using f1 frame_set_ref [of ?s1 ?par ?r] by (rule frame_trans)
    have ex: "exec n (CFinalize z) s =
        (if ?r = 0 then exec m (CFinalize ?par) ?s2 else Some (Return Undefined, ?s2))"
      using False by (simp add: n finalize_def decRef_def ret_def Let_def)
    show ?thesis
    proof (cases "?r = 0")
      case True
      have "\<exists>s'. exec m (CFinalize ?par) ?s2 = Some (Return Undefined, s') \<and> frame ?s2 s'"
      proof (rule less.IH [OF par])
        show "zones_wf ?s2" using f2 less.prems(1) by (rule zones_wf_frame)
        show "?par < length (zones ?s2)"
          using par less.prems(2) frame_length [OF f2] by simp
        show "?par < m" using par zm by simp
      qed
      then obtain s' where "exec m (CFinalize ?par) ?s2 = Some (Return Undefined, s')"
        and "frame ?s2 s'" by blast
      with ex True f2 show ?thesis by (auto intro: frame_trans)
    next
      case False
      with ex f2 show ?thesis by auto
    qed
  qed
qed

lemma decRef_total:
  assumes wf: "zones_wf s" and z: "z < length (zones s)" and n: "z < n"
  shows "\<exists>s'. decRef (exec n) z s = Some (Return Undefined, s') \<and> frame s s'"
proof -
  let ?r = "z_ref (zones s ! z) - 1"
  let ?s1 = "set_ref z ?r s"
  have f1: "frame s ?s1" by (rule frame_set_ref)
  show ?thesis
  proof (cases "?r = 0")
    case True
    have "\<exists>s'. exec n (CFinalize z) ?s1 = Some (Return Undefined, s') \<and> frame ?s1 s'"
      using zones_wf_frame [OF f1 wf] z n frame_length [OF f1] by (intro finalize_total) simp_all
    then obtain s' where "exec n (CFinalize z) ?s1 = Some (Return Undefined, s')" "frame ?s1 s'"
      by blast
    with f1 True show ?thesis
      by (auto simp: decRef_def Let_def ret_def intro: frame_trans)
  next
    case False
    with f1 show ?thesis
      by (auto simp: decRef_def Let_def ret_def)
  qed
qed

section \<open>Settling a promise that has no listeners\<close>

lemmas ctl_defs = ret_def bind_r_def try_catch_def try_finally_def

lemma frame_fields:
  assumes "frame s s'"
  shows "promises s' = promises s" "PSD s' = PSD s" "microtickQueue s' = microtickQueue s"
    "numScheduledCalls s' = numScheduledCalls s" "unhandledErrors s' = unhandledErrors s"
    "rejectingErrors s' = rejectingErrors s" "isOutsideMicroTick s' = isOutsideMicroTick s"
    "needsNewPhysicalTick s' = needsNewPhysicalTick s" "rejectionMapper s' = rejectionMapper s"
    "nextOid s' = nextOid s" "length (zones s') = length (zones s)"
  using assms by (auto simp: frame_def same_shape_def)

lemma tick_end_check_fields:
  "promises (tick_end_check s) = promises s" "zones (tick_end_check s) = zones s"
  "trace (tick_end_check s) = trace s" "unhandledErrors (tick_end_check s) = unhandledErrors s"
  "PSD (tick_end_check s) = PSD s" "rejectingErrors (tick_end_check s) = rejectingErrors s"
  "rejectionMapper (tick_end_check s) = rejectionMapper s"
  by (simp_all add: tick_end_check_def asap_def Let_def)

lemma propagateAllListeners_none:
  assumes "p < length (promises s)" "p_listeners (promises s ! p) = []"
    and "zones_wf s" "p_PSD (promises s ! p) < length (zones s)" "p_PSD (promises s ! p) < n"
  shows "\<exists>s1. propagateAllListeners (exec n) p s = Some (Return Undefined, tick_end_check s1) \<and>
           frame s s1"
proof -
  let ?s1 = "set_promise p (\<lambda>pr. pr\<lparr> p_listeners := [] \<rparr>) s"
  have eq: "?s1 = s"
    using assms(1,2) by (simp add: set_promise_def list_update_same_conv)
  from decRef_total [OF assms(3,4,5)] obtain s2 where
    d: "decRef (exec n) (p_PSD (promises s ! p)) s = Some (Return Undefined, s2)" and f: "frame s s2"
    by blast
  have "propagateAllListeners (exec n) p s = Some (Return Undefined, tick_end_check s2)"
    unfolding propagateAllListeners_def Let_def eq
    by (simp add: assms(2) d ctl_defs tick_end_check_def)
  with f show ?thesis by blast
qed

lemma set_promise_fields:
  "zones (set_promise p f s) = zones s" "PSD (set_promise p f s) = PSD s"
  "length (promises (set_promise p f s)) = length (promises s)"
  "trace (set_promise p f s) = trace s" "unhandledErrors (set_promise p f s) = unhandledErrors s"
  "numScheduledCalls (set_promise p f s) = numScheduledCalls s"
  "microtickQueue (set_promise p f s) = microtickQueue s"
  "rejectionMapper (set_promise p f s) = rejectionMapper s"
  by (simp_all add: set_promise_def)

lemma set_promise_nth:
  "p < length (promises s) \<Longrightarrow> promises (set_promise p f s) ! p = f (promises s ! p)"
  by (simp add: set_promise_def)

lemma zones_wf_cong: "zones s' = zones s \<Longrightarrow> zones_wf s' = zones_wf s"
  by (simp add: zones_wf_def)

lemma not_thenable_not_promise: "\<not> is_thenable v \<Longrightarrow> \<not> strict_eq v (PromiseRef q)"
  by (auto simp: is_thenable_def strict_eq_def split: val.splits)

lemma resolveFn_plain:
  assumes q: "q < length (promises s)" and pend: "p_state (promises s ! q) = None"
    and nol: "p_listeners (promises s ! q) = []" and nolib: "\<not> p_lib (promises s ! q)"
    and plain: "\<not> is_thenable v"
    and wf: "zones_wf s" and z: "p_PSD (promises s ! q) < length (zones s)"
    and n: "p_PSD (promises s ! q) < n"
  shows "\<exists>s1. resolveFn (exec n) q v s = Some (Return Undefined, tick_end_check s1) \<and>
           frame (set_promise q (\<lambda>pr. pr\<lparr> p_state := Some True, p_value := v \<rparr>) s) s1"
proof -
  let ?s1 = "set_promise q (\<lambda>pr. pr\<lparr> p_state := Some True, p_value := v \<rparr>) s"
  have "\<exists>s2. propagateAllListeners (exec n) q ?s1 = Some (Return Undefined, tick_end_check s2) \<and>
           frame ?s1 s2"
    using q nol wf z n
    by (intro propagateAllListeners_none)
       (simp_all add: set_promise_fields set_promise_nth zones_wf_cong [of ?s1 s])
  then obtain s2 where
    pa: "propagateAllListeners (exec n) q ?s1 = Some (Return Undefined, tick_end_check s2)"
    and f: "frame ?s1 s2" by blast
  have "resolveFn (exec n) q v s = Some (Return Undefined, tick_end_check s2)"
    using pend nolib plain pa
    by (simp add: resolveFn_def libScope_def not_thenable_not_promise ctl_defs)
  with f show ?thesis by blast
qed

lemma addPossiblyUnhandledError_fields:
  "promises (addPossiblyUnhandledError p s) = promises s"
  "zones (addPossiblyUnhandledError p s) = zones s"
  "PSD (addPossiblyUnhandledError p s) = PSD s"
  "trace (addPossiblyUnhandledError p s) = trace s"
  "numScheduledCalls (addPossiblyUnhandledError p s) = numScheduledCalls s"
  "microtickQueue (addPossiblyUnhandledError p s) = microtickQueue s"
  "rejectionMapper (addPossiblyUnhandledError p s) = rejectionMapper s"
  by (simp_all add: addPossiblyUnhandledError_def)

lemma handleRejection_plain:
  assumes q: "q < length (promises s)" and pend: "p_state (promises s ! q) = None"
    and nol: "p_listeners (promises s ! q) = []" and nolib: "\<not> p_lib (promises s ! q)"
    and wf: "zones_wf s" and z: "p_PSD (promises s ! q) < length (zones s)"
    and n: "p_PSD (promises s ! q) < n"
  shows "\<exists>s1. handleRejection (exec n) q reason s = Some (Return Undefined, tick_end_check s1) \<and>
           frame (rejected_state q reason s) s1"
proof -
  let ?s4 = "rejected_state q reason s"
  have "\<exists>s2. propagateAllListeners (exec n) q ?s4 = Some (Return Undefined, tick_end_check s2) \<and>
           frame ?s4 s2"
    using q nol wf z n
    by (intro propagateAllListeners_none)
       (simp_all add: rejected_state_def addPossiblyUnhandledError_fields set_promise_fields
          set_promise_nth zones_wf_def)
  then obtain s2 where
    pa: "propagateAllListeners (exec n) q ?s4 = Some (Return Undefined, tick_end_check s2)"
    and f: "frame ?s4 s2" by blast
  have "handleRejection (exec n) q reason s = Some (Return Undefined, tick_end_check s2)"
    using pend nolib pa
    by (simp add: handleRejection_def libScope_def rejected_state_def ctl_defs Let_def)
  with f show ?thesis by blast
qed

lemma resolveFn_adopt_fulfilled:
  assumes q: "q < length (promises s)" and pend: "p_state (promises s ! q) = None"
    and nol: "p_listeners (promises s ! q) = []" and nolib: "\<not> p_lib (promises s ! q)"
    and pq: "p \<noteq> q" and ful: "p_state (promises s ! p) = Some True"
    and plain: "\<not> is_thenable (p_value (promises s ! p))"
    and wf: "zones_wf s" and z: "p_PSD (promises s ! q) < length (zones s)"
    and n: "p_PSD (promises s ! q) < n"
  shows "\<exists>s1. resolveFn (exec (Suc n)) q (PromiseRef p) s =
              Some (Return Undefined, tick_end_check s1) \<and>
           frame (set_promise q (\<lambda>pr. pr\<lparr> p_state := Some True,
                                           p_value := p_value (promises s ! p) \<rparr>) s) s1"
proof -
  from resolveFn_plain [OF q pend nol nolib plain wf z n] obtain s1 where
    r: "resolveFn (exec n) q (p_value (promises s ! p)) s =
          Some (Return Undefined, tick_end_check s1)"
    and f: "frame (set_promise q (\<lambda>pr. pr\<lparr> p_state := Some True,
                                           p_value := p_value (promises s ! p) \<rparr>) s) s1"
    by blast
  have "resolveFn (exec (Suc n)) q (PromiseRef p) s = Some (Return Undefined, tick_end_check s1)"
    using pend nolib pq ful r
    by (simp add: resolveFn_def [of "exec (Suc n)"] libScope_def strict_eq_def is_thenable_def
          executePromiseTask_def adopt_def then_internal_def propagateToListener_def
          Listener_def callFn_def ctl_defs)
  with f show ?thesis by blast
qed

section \<open>C8: resolve of a core promise, adoption of a fulfilled promise\<close>

text \<open>
  C8: \<open>Promise.resolve(p)\<close> of a core promise \<open>p\<close> returns \<open>p\<close> itself and changes
  nothing; and a new promise whose executor resolves it with an already fulfilled core
  promise \<open>p\<close> is fulfilled, when the constructor returns, with the value of \<open>p\<close>.
\<close>

theorem C8_resolve_returns_promise_and_adoption:
  assumes "p < length (promises s)" and "p_state (promises s ! p) = Some True"
    and "\<not> is_thenable (p_value (promises s ! p))"
    and "zones_wf s" and "PSD s < length (zones s)" and "PSD s < n"
  shows "Promise_resolve (exec n) (PromiseRef p) s = Some (Return (PromiseRef p), s) \<and>
         (\<exists>s'. PromiseCtor (exec (Suc (Suc n)))
                 (\<lambda>q. exec (Suc (Suc n)) (CCall (ResolveFn q) (PromiseRef p))) s =
                 Some (Return (PromiseRef (length (promises s))), s') \<and>
               p_state (promises s' ! length (promises s)) = Some True \<and>
               p_value (promises s' ! length (promises s)) = p_value (promises s ! p))"
proof
  show "Promise_resolve (exec n) (PromiseRef p) s = Some (Return (PromiseRef p), s)"
    by (simp add: Promise_resolve_def ret_def)
next
  let ?q = "length (promises s)"
  let ?new = "\<lparr> p_state = None, p_value = Null, p_listeners = [], p_PSD = PSD s, p_lib = False \<rparr>"
  let ?s2 = "set_ref (PSD s) (z_ref (zones s ! PSD s) + 1) (s\<lparr> promises := promises s @ [?new] \<rparr>)"
  let ?v = "p_value (promises s ! p)"
  have pr2: "promises ?s2 = promises s @ [?new]" by (simp add: set_ref_def)
  have f0: "frame (s\<lparr> promises := promises s @ [?new] \<rparr>) ?s2" by (rule frame_set_ref)
  have wf2: "zones_wf ?s2"
    using assms(4) by (intro zones_wf_frame [OF f0]) (simp add: zones_wf_def)
  have "\<exists>s1. resolveFn (exec (Suc n)) ?q (PromiseRef p) ?s2 =
              Some (Return Undefined, tick_end_check s1) \<and>
           frame (set_promise ?q (\<lambda>pr. pr\<lparr> p_state := Some True,
                                           p_value := p_value (promises ?s2 ! p) \<rparr>) ?s2) s1"
    using assms wf2 frame_fields(11) [OF f0]
    by (intro resolveFn_adopt_fulfilled) (simp_all add: pr2 nth_append)
  then obtain s1 where
    r: "resolveFn (exec (Suc n)) ?q (PromiseRef p) ?s2 = Some (Return Undefined, tick_end_check s1)"
    and f: "frame (set_promise ?q (\<lambda>pr. pr\<lparr> p_state := Some True, p_value := ?v \<rparr>) ?s2) s1"
    using assms(1) by (auto simp: pr2 nth_append)
  have run: "PromiseCtor (exec (Suc (Suc n)))
                 (\<lambda>q. exec (Suc (Suc n)) (CCall (ResolveFn q) (PromiseRef p))) s =
               Some (Return (PromiseRef ?q), tick_end_check s1)"
    using r by (simp add: PromiseCtor_def alloc_def executePromiseTask_def callFn_def ctl_defs)
  have "promises (tick_end_check s1) ! ?q = ?new\<lparr> p_state := Some True, p_value := ?v \<rparr>"
    by (simp add: tick_end_check_fields frame_fields(1) [OF f] set_promise_def pr2)
  with run show "\<exists>s'. PromiseCtor (exec (Suc (Suc n)))
                 (\<lambda>q. exec (Suc (Suc n)) (CCall (ResolveFn q) (PromiseRef p))) s =
                 Some (Return (PromiseRef (length (promises s))), s') \<and>
               p_state (promises s' ! length (promises s)) = Some True \<and>
               p_value (promises s' ! length (promises s)) = p_value (promises s ! p)"
    by simp
qed

lemma exec_numeral: "exec (numeral k) c s = exec (Suc (pred_numeral k)) c s"
  by (simp add: numeral_eq_Suc)

lemmas engine_defs = asap_def beginMicroTickScope_def addPossiblyUnhandledError_def
  markErrorAsHandled_def globalError_def finalizePhysicalTick_def switchToZone_def set_ref_def
  decRef_def finalize_def usePSD_def set_promise_def Listener_def propagateToListener_def
  propagateAllListeners_def libScope_def handleRejection_def then_internal_def
  executePromiseTask_def newTypeError_def adopt_def resolveFn_def alloc_def PromiseCtor_def
  PromiseInternal_def PromiseReject_def callFn_def scheduledCallDone_def callListener_def
  runTask_def endMicroTickScope_def then_orig_def nativeAwaitCompatibleWrap_def Promise_then_def
  Promise_catch_def Promise_finally_def Promise_resolve_def Promise_race_def physicalTick_def
  newScope_def wrapped_def wrap_def

lemmas val_defs = strict_eq_def truthy_def is_thenable_def instanceOf_def prop_name_def
  mirror_def globalPSD_def

lemma fulfilled1_run: "Promise_resolve (exec 1) (Num 1) init = Some (Return (PromiseRef 0), fulfilled1)"
  by (simp add: Promise_resolve_def PromiseInternal_def alloc_def init_def ctl_defs fulfilled1_def globalPSD_def)

theorem C8_witness:
  "0 < length (promises fulfilled1) \<and> p_state (promises fulfilled1 ! 0) = Some True \<and>
   \<not> is_thenable (p_value (promises fulfilled1 ! 0)) \<and> zones_wf fulfilled1 \<and>
   PSD fulfilled1 < length (zones fulfilled1) \<and> PSD fulfilled1 < 1 \<and>
   Promise_resolve (exec 1) (PromiseRef 0) fulfilled1 = Some (Return (PromiseRef 0), fulfilled1) \<and>
   (\<exists>s'. PromiseCtor (exec 3) (\<lambda>q. exec 3 (CCall (ResolveFn q) (PromiseRef 0))) fulfilled1 =
            Some (Return (PromiseRef 1), s') \<and>
          p_state (promises s' ! 1) = Some True \<and> p_value (promises s' ! 1) = Num 1)"
proof -
  have h: "0 < length (promises fulfilled1)" "p_state (promises fulfilled1 ! 0) = Some True"
    "\<not> is_thenable (p_value (promises fulfilled1 ! 0))" "zones_wf fulfilled1"
    "PSD fulfilled1 < length (zones fulfilled1)" "PSD fulfilled1 < 1"
    by (simp_all add: fulfilled1_def init_def is_thenable_def zones_wf_def globalPSD_def)
  have n: "exec 3 = exec (Suc (Suc 1))" by (simp add: numeral_3_eq_3)
  show ?thesis
    using h C8_resolve_returns_promise_and_adoption [OF h]
    by (simp add: n fulfilled1_def init_def)
qed

section \<open>C3: resolving a promise with itself\<close>

text \<open>
  C3 at the failing input: \<open>var res; var p = new Promise(r => { res = r; }); res(p);\<close>.
  The call of the resolve capability after the executor has returned throws the TypeError
  to its caller, and \<open>p\<close> stays pending.
\<close>

theorem C3_self_resolution_after_executor_throws:
  "(case bind_r (PromiseCtor (exec 2) (\<lambda>p. ret Undefined) init)
           (\<lambda>_. exec 2 (CCall (ResolveFn 0) (PromiseRef 0))) of
      Some (Throw e, s') \<Rightarrow>
        e = Obj 0 [CTypeError, CError, CObject] (Some ''TypeError'')
              (Some ''A promise cannot be resolved with itself.'') \<and>
        p_state (promises s' ! 0) = None
    | _ \<Rightarrow> False)"
  by (simp add: exec_numeral ctl_defs engine_defs val_defs init_def Let_def)

section \<open>C2: then on a settled promise\<close>

lemma then_orig_settled_handler:
  assumes "this < length (promises s)" and "p_state (promises s ! this) = Some st"
    and "(if st then onF else onR) = Some cb"
  shows "then_orig rec this onF onR s =
           Some (Return (PromiseRef (length (promises s))),
                 then_scheduled this cb
                   (Listener onF onR (ResolveFn (length (promises s)))
                      (RejectFn (length (promises s))) (PSD s)) s)"
  using assms
  by (cases st)
     (simp_all add: then_orig_def PromiseCtor_def alloc_def executePromiseTask_def
        propagateToListener_def then_scheduled_def pending_promise_def set_ref_def
        nth_append ctl_defs Let_def Listener_def)

lemma then_scheduled_fields:
  "promises (then_scheduled this cb l s) = promises s @ [pending_promise (PSD s)]"
  "microtickQueue (then_scheduled this cb l s) = microtickQueue s @ [CallListener cb this l]"
  "numScheduledCalls (then_scheduled this cb l s) = numScheduledCalls s + 1"
  "PSD (then_scheduled this cb l s) = PSD s"
  "trace (then_scheduled this cb l s) = trace s"
  "isOutsideMicroTick (then_scheduled this cb l s) = isOutsideMicroTick s"
  "rejectionMapper (then_scheduled this cb l s) = rejectionMapper s"
  "unhandledErrors (then_scheduled this cb l s) = unhandledErrors s"
  by (simp_all add: then_scheduled_def set_ref_def asap_def Let_def)

text \<open>
  C2 (amended): \<open>then\<close> on a settled promise whose handler for the promise's outcome
  (\<open>onFulfilled\<close> if fulfilled, \<open>onRejected\<close> if rejected) is a function puts the call
  of that handler on the microtask queue, and the promise it returns is pending when
  \<open>then\<close> returns.
\<close>

theorem C2_then_with_handler_defers:
  assumes "this < length (promises s)" and "p_state (promises s ! this) = Some st"
    and "(if st then onF else onR) = Some cb"
  shows "\<exists>s' cb' l. Promise_then rec this onF onR s =
                     Some (Return (PromiseRef (length (promises s))), s') \<and>
           p_state (promises s' ! length (promises s)) = None \<and>
           microtickQueue s' = microtickQueue s @ [CallListener cb' this l] \<and>
           cb' = (if z_global (zones s ! PSD s) then cb else ZoneWrap (PSD s) cb)"
proof (cases "z_global (zones s ! PSD s)")
  case True
  then show ?thesis
    using then_orig_settled_handler [OF assms, of rec]
    by (simp add: Promise_then_def then_scheduled_fields pending_promise_def)
next
  case False
  let ?w = "\<lambda>f. nativeAwaitCompatibleWrap f (PSD s)"
  have "(if st then ?w onF else ?w onR) = Some (ZoneWrap (PSD s) cb)"
    using assms(3) by (auto simp: nativeAwaitCompatibleWrap_def split: if_splits)
  from then_orig_settled_handler [OF assms(1,2) this, of rec] False show ?thesis
    by (simp add: Promise_then_def then_scheduled_fields pending_promise_def)
qed

theorem C2_witness:
  "0 < length (promises fulfilled1) \<and> p_state (promises fulfilled1 ! 0) = Some True \<and>
   (if True then Some (UserFn 0 Return) else None) = Some (UserFn 0 Return) \<and>
   (\<exists>s' cb' l. Promise_then (exec 0) 0 (Some (UserFn 0 Return)) None fulfilled1 =
                  Some (Return (PromiseRef 1), s') \<and>
      p_state (promises s' ! 1) = None \<and>
      microtickQueue s' = [CallListener cb' 0 l] \<and> cb' = UserFn 0 Return)"
proof -
  have h: "0 < length (promises fulfilled1)" "p_state (promises fulfilled1 ! 0) = Some True"
    "(if True then Some (UserFn 0 Return) else None) = Some (UserFn 0 Return)"
    by (simp_all add: fulfilled1_def init_def)
  show ?thesis
    using h C2_then_with_handler_defers [OF h, of "exec 0"]
    by (simp add: fulfilled1_def init_def globalPSD_def)
qed

text \<open>
  C2 as stated fails when the handler for the outcome is missing: after
  \<open>var p = Promise.resolve(1); var rv = p.then();\<close> the promise \<open>rv\<close> is already fulfilled
  with 1 when \<open>then\<close> returns.
\<close>

theorem C2_counterexample:
  "(case Promise_then (exec 3) 0 None None fulfilled1 of
      Some (Return rv, s') \<Rightarrow>
        rv = PromiseRef 1 \<and> p_state (promises s' ! 1) = Some True \<and>
        p_value (promises s' ! 1) = Num 1
    | _ \<Rightarrow> False)"
  by code_simp

section \<open>Race of nothing, and ticks with nothing queued\<close>

lemma Promise_race_Nil:
  "Promise_race rec [] s =
     Some (Return (PromiseRef (length (promises s))),
           set_ref (PSD s) (z_ref (zones s ! PSD s) + 1)
             (s\<lparr> promises := promises s @ [pending_promise (PSD s)] \<rparr>))"
  by (simp add: Promise_race_def PromiseCtor_def alloc_def executePromiseTask_def
        pending_promise_def set_ref_def ctl_defs Let_def)

lemma physicalTick_idle:
  assumes "microtickQueue s = []"
  shows "\<exists>s' v. physicalTick rec s = Some (Return v, s') \<and> promises s' = promises s \<and>
           microtickQueue s' = []"
  using assms
  by (simp add: physicalTick_def beginMicroTickScope_def endMicroTickScope_def ret_def)

lemma ticks_idle:
  "microtickQueue s = [] \<Longrightarrow>
   \<exists>s' v. ticks n k s = Some (Return v, s') \<and> promises s' = promises s \<and> microtickQueue s' = []"
proof (induction k arbitrary: s)
  case 0
  then show ?case by (simp add: ret_def)
next
  case (Suc k)
  from physicalTick_idle [OF Suc.prems, of "exec n"] obtain s1 v1 where
    t: "physicalTick (exec n) s = Some (Return v1, s1)" and p: "promises s1 = promises s"
    and q: "microtickQueue s1 = []" by blast
  from Suc.IH [OF q] obtain s' v where
    "ticks n k s1 = Some (Return v, s')" "promises s' = promises s1" "microtickQueue s' = []"
    by blast
  with t p show ?case by (auto simp: bind_r_def)
qed

section \<open>C10: a wrapped function that throws\<close>

text \<open>
  C10: when \<open>fn\<close> throws \<open>e\<close> in a function made by \<open>wrap(fn)\<close> with no \<open>errorCatcher\<close>,
  the call goes on to the \<open>finally\<close> block as if \<open>fn\<close> had returned \<open>undefined\<close>, whatever
  \<open>e\<close> is; and when that block has no queue to drain (the call is nested in a virtual
  tick, or the queue is empty) the call returns \<open>undefined\<close> with the promises and the
  list of unhandled rejections as \<open>fn\<close> left them.
\<close>

theorem C10_wrap_swallows_exception:
  assumes "fn (switchToZone (PSD s0) (snd (beginMicroTickScope s))) = Some (Throw e, s2)"
  shows "wrap rec fn None s0 s =
           try_finally (Some (Return Undefined, s2))
             (\<lambda>s3. if isOutsideMicroTick s then endMicroTickScope rec (switchToZone (PSD s) s3)
                    else ret Undefined (switchToZone (PSD s) s3)) \<and>
         (\<not> isOutsideMicroTick s \<or> microtickQueue s2 = [] \<longrightarrow>
            (\<exists>s'. wrap rec fn None s0 s = Some (Return Undefined, s') \<and>
                  promises s' = promises s2 \<and> unhandledErrors s' = unhandledErrors s2 \<and>
                  PSD s' = PSD s))"
proof -
  have eq: "wrap rec fn None s0 s =
           try_finally (Some (Return Undefined, s2))
             (\<lambda>s3. if isOutsideMicroTick s then endMicroTickScope rec (switchToZone (PSD s) s3)
                    else ret Undefined (switchToZone (PSD s) s3))"
    using assms
    by (simp add: wrap_def wrapped_def beginMicroTickScope_def try_catch_def ret_def
          try_finally_def Let_def)
  show ?thesis
    unfolding eq
    by (auto simp: try_finally_def ret_def endMicroTickScope_def switchToZone_def)
qed

theorem C10_witness:
  "switchToZone (PSD init) (snd (beginMicroTickScope init)) = snd (beginMicroTickScope init) \<and>
   microtickQueue (snd (beginMicroTickScope init)) = [] \<and>
   (\<exists>s'. wrap (exec 1) (\<lambda>s. Some (Throw (Str ''boom''), s)) None init init =
            Some (Return Undefined, s') \<and>
          promises s' = promises (snd (beginMicroTickScope init)) \<and>
          unhandledErrors s' = unhandledErrors (snd (beginMicroTickScope init)) \<and>
          PSD s' = PSD init)"
proof -
  have h: "switchToZone (PSD init) (snd (beginMicroTickScope init)) = snd (beginMicroTickScope init)"
    by (simp add: switchToZone_def beginMicroTickScope_def)
  have q: "microtickQueue (snd (beginMicroTickScope init)) = []"
    by (simp add: beginMicroTickScope_def init_def)
  have p: "Some (Throw (Str ''boom''), switchToZone (PSD init) (snd (beginMicroTickScope init))) =
           Some (Throw (Str ''boom''), snd (beginMicroTickScope init))"
    using h by simp
  note t = C10_wrap_swallows_exception [where fn = "\<lambda>s. Some (Throw (Str ''boom''), s)"
        and ?s0.0 = init and s = init and e = "Str ''boom''"
        and ?s2.0 = "snd (beginMicroTickScope init)" and rec = "exec 1", OF p, THEN conjunct2]
  show ?thesis
    using h q t by simp
qed

section \<open>C4: when a zone is finalized\<close>

lemma finalize_trace:
  "zones_wf s \<Longrightarrow> z < length (zones s) \<Longrightarrow> z < n \<Longrightarrow>
   \<exists>s' rest. exec n (CFinalize z) s = Some (Return Undefined, s') \<and> frame s s' \<and>
     trace s' = trace s @ Finalized z # rest \<and> (\<forall>e\<in>set rest. \<exists>a<z. e = Finalized a)"
proof (induction z arbitrary: s n rule: less_induct)
  case (less z)
  from less.prems(3) obtain m where n: "n = Suc m" and zm: "z \<le> m"
    by (cases n) auto
  let ?s1 = "s\<lparr> trace := trace s @ [Finalized z] \<rparr>"
  have f1: "frame s ?s1" by (rule frame_Finalized)
  show ?case
  proof (cases "z_global (zones s ! z)")
    case True
    then have "exec n (CFinalize z) s = Some (Return Undefined, ?s1)"
      by (simp add: n finalize_def ret_def)
    with f1 show ?thesis by force
  next
    case False
    let ?par = "z_parent (zones s ! z)"
    let ?r = "z_ref (zones s ! ?par) - 1"
    let ?s2 = "set_ref ?par ?r ?s1"
    from False less.prems(1,2) have par: "?par < z"
      by (simp add: zones_wf_def)
    have f2: "frame s ?s2"
      using f1 frame_set_ref [of ?s1 ?par ?r] by (rule frame_trans)
    have t2: "trace ?s2 = trace s @ [Finalized z]" by (simp add: set_ref_def)
    have ex: "exec n (CFinalize z) s =
        (if ?r = 0 then exec m (CFinalize ?par) ?s2 else Some (Return Undefined, ?s2))"
      using False by (simp add: n finalize_def decRef_def ret_def Let_def)
    show ?thesis
    proof (cases "?r = 0")
      case True
      have "\<exists>s' rest. exec m (CFinalize ?par) ?s2 = Some (Return Undefined, s') \<and> frame ?s2 s' \<and>
              trace s' = trace ?s2 @ Finalized ?par # rest \<and>
              (\<forall>e\<in>set rest. \<exists>a<?par. e = Finalized a)"
      proof (rule less.IH [OF par])
        show "zones_wf ?s2" using f2 less.prems(1) by (rule zones_wf_frame)
        show "?par < length (zones ?s2)"
          using par less.prems(2) frame_length [OF f2] by simp
        show "?par < m" using par zm by simp
      qed
      then obtain s' rest where e: "exec m (CFinalize ?par) ?s2 = Some (Return Undefined, s')"
        and f: "frame ?s2 s'" and t: "trace s' = trace ?s2 @ Finalized ?par # rest"
        and r: "\<forall>e\<in>set rest. \<exists>a<?par. e = Finalized a" by blast
      have "trace s' = trace s @ Finalized z # (Finalized ?par # rest)"
        using t t2 by simp
      moreover have "\<forall>e\<in>set (Finalized ?par # rest). \<exists>a<z. e = Finalized a"
        using r par by (auto intro: less_trans)
      moreover have "frame s s'" using f2 f by (rule frame_trans)
      ultimately show ?thesis using ex True e by force
    next
      case False
      with ex f2 t2 show ?thesis by force
    qed
  qed
qed

text \<open>
  C4 at the failing input: \<open>newScope(() => { new Promise(resolve => resolve(1)); })\<close>,
  called in the global zone 0. \<open>newScope\<close> counts the new zone 1 in its parent
  (\<open>++parent.ref\<close>, once). The promise takes the count of zone 1 from 0 to 1 and, settling,
  back to 0: the finalizer of zone 1 runs, and then that of zone 0, whose count it has
  brought back to 0. When the function has returned, \<open>newScope\<close> finds \<open>psd.ref === 0\<close> and
  runs the finalizer of zone 1 a second time, after that of its parent, which leaves the
  count of zone 0 at -1.
\<close>

theorem C4_newScope_finalizes_twice:
  "(case newScope (exec 4) (PromiseCtor (exec 4) (\<lambda>p. exec 4 (CCall (ResolveFn p) (Num 1)))) init of
      Some (out, s') \<Rightarrow>
        trace s' = [Finalized 1, Finalized 0, Finalized 1] \<and> map z_ref (zones s') = [- 1, 0]
    | None \<Rightarrow> False)"
  by code_simp

section \<open>C1: a settled promise is frozen\<close>

lemma frozen_refl: "frozen s s"
  by (simp add: frozen_def)

lemma frozen_trans: "frozen s s1 \<Longrightarrow> frozen s1 s2 \<Longrightarrow> frozen s s2"
  by (fastforce simp: frozen_def)

lemma frozen_same: "frozen s0 s \<Longrightarrow> promises s' = promises s \<Longrightarrow> frozen s0 s'"
  by (simp add: frozen_def)

lemma frozen_set_promise:
  assumes "frozen s0 s"
    and "p_state (promises s ! p) = None \<or>
         (p_state (f (promises s ! p)) = p_state (promises s ! p) \<and>
          p_value (f (promises s ! p)) = p_value (promises s ! p))"
  shows "frozen s0 (set_promise p f s)"
proof (rule frozen_trans [OF assms(1)])
  show "frozen s (set_promise p f s)"
    using assms(2)
    by (cases "p < length (promises s)") (auto simp: frozen_def set_promise_def nth_list_update)
qed

lemma frozen_alloc: "frozen s0 s \<Longrightarrow> frozen s0 (snd (alloc pr s))"
  by (rule frozen_trans) (auto simp: frozen_def alloc_def nth_append)

lemma promises_fold_globalError:
  "promises (fold (\<lambda>p. globalError (f p) p) xs s) = promises s"
  by (induction xs arbitrary: s) (simp_all add: globalError_def)

lemma promises_unchanged:
  "promises (asap t s) = promises s"
  "promises (set_ref z r s) = promises s"
  "promises (addPossiblyUnhandledError p s) = promises s"
  "promises (markErrorAsHandled p s) = promises s"
  "promises (finalizePhysicalTick s) = promises s"
  "promises (scheduledCallDone s) = promises s"
  "promises (switchToZone z s) = promises s"
  "promises (snd (beginMicroTickScope s)) = promises s"
  "promises (snd (libScope p s)) = promises s"
  by (simp_all add: asap_def set_ref_def addPossiblyUnhandledError_def markErrorAsHandled_def
        finalizePhysicalTick_def scheduledCallDone_def switchToZone_def beginMicroTickScope_def
        libScope_def promises_fold_globalError Let_def)

lemma keeps_None: "keeps s0 None"
  by (simp add: keeps_def)

lemma keeps_Some: "frozen s0 s \<Longrightarrow> keeps s0 (Some (out, s))"
  by (simp add: keeps_def)

lemma keeps_ret: "frozen s0 s \<Longrightarrow> keeps s0 (ret v s)"
  by (simp add: keeps_def ret_def)

lemma keeps_bind:
  "keeps s0 m \<Longrightarrow> (\<And>v s1. frozen s0 s1 \<Longrightarrow> keeps s0 (f v s1)) \<Longrightarrow> keeps s0 (bind_r m f)"
  by (auto simp: keeps_def bind_r_def split: option.splits outcome.splits)

lemma keeps_try_catch:
  "keeps s0 m \<Longrightarrow> (\<And>e s1. frozen s0 s1 \<Longrightarrow> keeps s0 (h e s1)) \<Longrightarrow> keeps s0 (try_catch m h)"
  by (auto simp: keeps_def try_catch_def split: option.splits outcome.splits)

lemma keeps_try_finally:
  "keeps s0 m \<Longrightarrow> (\<And>s1. frozen s0 s1 \<Longrightarrow> keeps s0 (c s1)) \<Longrightarrow> keeps s0 (try_finally m c)"
  by (fastforce simp: keeps_def try_finally_def split: option.splits outcome.splits)

lemma keeps_forEach:
  "(\<And>x s1. frozen s0 s1 \<Longrightarrow> keeps s0 (f x s1)) \<Longrightarrow> frozen s0 s \<Longrightarrow> keeps s0 (forEach f xs s)"
  by (induction xs arbitrary: s) (auto intro: keeps_ret keeps_bind)

lemma keeps_rec: "rec_keeps rec \<Longrightarrow> frozen s0 s \<Longrightarrow> keeps s0 (rec c s)"
  by (simp add: rec_keeps_def)

lemma keeps_decRef:
  assumes r: "rec_keeps rec"
  shows "frozen s0 s \<Longrightarrow> keeps s0 (decRef rec z s)"
  by (auto simp: decRef_def Let_def promises_unchanged
        intro!: keeps_rec [OF r] keeps_ret intro: frozen_same)

lemma keeps_finalize:
  assumes r: "rec_keeps rec"
  shows "frozen s0 s \<Longrightarrow> keeps s0 (finalize rec z s)"
  by (auto simp: finalize_def Let_def intro!: keeps_decRef [OF r] keeps_ret intro: frozen_same)

lemma keeps_propagateToListener:
  assumes r: "rec_keeps rec"
  shows "frozen s0 s \<Longrightarrow> keeps s0 (propagateToListener rec p l s)"
  by (auto simp: propagateToListener_def Let_def promises_unchanged split: option.splits
        intro!: keeps_rec [OF r] keeps_ret frozen_set_promise intro: frozen_same)

lemma keeps_propagateAllListeners:
  assumes r: "rec_keeps rec"
  shows "frozen s0 s \<Longrightarrow> keeps s0 (propagateAllListeners rec p s)"
  unfolding propagateAllListeners_def Let_def
  by (intro keeps_bind keeps_forEach keeps_propagateToListener [OF r] keeps_decRef [OF r]
        frozen_set_promise)
     (auto simp: promises_unchanged intro!: keeps_ret intro: frozen_same)

lemma keeps_handleRejection:
  assumes r: "rec_keeps rec" and f: "frozen s0 s"
  shows "keeps s0 (handleRejection rec p reason s)"
proof -
  let ?s1 = "s\<lparr> rejectingErrors := rejectingErrors s @ [reason] \<rparr>"
  have f1: "frozen s0 ?s1" using f by (rule frozen_same) simp
  show ?thesis
  proof (cases "p_state (promises s ! p) = None")
    case False
    then show ?thesis
      using f1 by (simp add: handleRejection_def keeps_ret)
  next
    case True
    obtain b s2 where l: "libScope p ?s1 = (b, s2)" by (cases "libScope p ?s1")
    then have p2: "promises s2 = promises s"
      using promises_unchanged(9) [of p ?s1] by simp
    let ?s3 = "set_promise p (\<lambda>pr. pr\<lparr> p_state := Some False,
                                        p_value := rejectionMapper s2 reason \<rparr>) s2"
    have "frozen s0 s2" using f p2 by (rule frozen_same)
    then have "frozen s0 ?s3" using True p2 by (intro frozen_set_promise) simp_all
    then have f4: "frozen s0 (addPossiblyUnhandledError p ?s3)"
      by (rule frozen_same) (simp add: promises_unchanged)
    have "keeps s0 (bind_r (propagateAllListeners rec p (addPossiblyUnhandledError p ?s3))
                     (\<lambda>_ s5. if b then rec CEndMicroTick s5 else ret Undefined s5))"
      by (intro keeps_bind keeps_propagateAllListeners [OF r] f4)
         (auto intro: keeps_rec [OF r] keeps_ret)
    then show ?thesis
      using True l by (simp add: handleRejection_def Let_def)
  qed
qed

lemma keeps_run_actions:
  assumes r: "rec_keeps rec"
  shows "frozen s0 s \<Longrightarrow> keeps s0 (run_actions rec res rej acts s)"
proof (induction acts arbitrary: s)
  case Nil
  then show ?case by (simp add: keeps_ret)
next
  case (Cons a acts)
  then show ?case
    by (cases a) (auto intro!: keeps_bind keeps_Some keeps_rec [OF r])
qed

lemma keeps_then_internal:
  assumes r: "rec_keeps rec"
  shows "frozen s0 s \<Longrightarrow> keeps s0 (then_internal rec p onF onR s)"
  by (simp add: then_internal_def keeps_propagateToListener [OF r])

lemma keeps_executePromiseTask:
  assumes r: "rec_keeps rec"
  shows "keeps s0 (fn s) \<Longrightarrow> keeps s0 (executePromiseTask rec p fn s)"
  unfolding executePromiseTask_def
  by (intro keeps_try_catch keeps_handleRejection [OF r])

lemma keeps_adopt:
  assumes r: "rec_keeps rec"
  shows "frozen s0 s \<Longrightarrow> keeps s0 (adopt rec p v s)"
  by (cases v)
     (auto simp: adopt_def newTypeError_def
        intro!: keeps_Some keeps_then_internal [OF r] keeps_run_actions [OF r]
        intro: frozen_same)

lemma keeps_resolveFn:
  assumes r: "rec_keeps rec" and f: "frozen s0 s"
  shows "keeps s0 (resolveFn rec p v s)"
proof (cases "p_state (promises s ! p) = None")
  case False
  then show ?thesis using f by (simp add: resolveFn_def keeps_ret)
next
  case True
  show ?thesis
  proof (cases "strict_eq v (PromiseRef p)")
    case True
    then show ?thesis
      using \<open>p_state (promises s ! p) = None\<close> f
      by (auto simp: resolveFn_def newTypeError_def intro!: keeps_Some intro: frozen_same)
  next
    case False
    obtain b s1 where l: "libScope p s = (b, s1)" by (cases "libScope p s")
    then have p1: "promises s1 = promises s"
      using promises_unchanged(9) [of p s] by simp
    have f1: "frozen s0 s1" using f p1 by (rule frozen_same)
    have "keeps s0 (bind_r
              (if is_thenable v then executePromiseTask rec p (adopt rec p v) s1
               else propagateAllListeners rec p
                      (set_promise p (\<lambda>pr. pr\<lparr> p_state := Some True, p_value := v \<rparr>) s1))
              (\<lambda>_ s2. if b then rec CEndMicroTick s2 else ret Undefined s2))"
      using f1 True p1
      by (intro keeps_bind)
         (auto intro!: keeps_executePromiseTask [OF r] keeps_adopt [OF r]
            keeps_propagateAllListeners [OF r] frozen_set_promise keeps_rec [OF r] keeps_ret)
    then show ?thesis
      using True False l by (simp add: resolveFn_def)
  qed
qed

lemma keeps_PromiseInternal:
  assumes r: "rec_keeps rec"
  shows "frozen s0 s \<Longrightarrow> keeps s0 (PromiseInternal rec st v s)"
  unfolding PromiseInternal_def Let_def
  by (auto split: prod.splits dest!: arg_cong [where f = snd]
        intro!: keeps_bind keeps_ret keeps_handleRejection [OF r] intro: frozen_alloc)

lemma keeps_PromiseReject:
  assumes r: "rec_keeps rec"
  shows "frozen s0 s \<Longrightarrow> keeps s0 (PromiseReject rec v s)"
  by (simp add: PromiseReject_def keeps_PromiseInternal [OF r])

lemma keeps_callFn:
  assumes r: "rec_keeps rec"
  shows "frozen s0 s \<Longrightarrow> keeps s0 (callFn rec f v s)"
  by (cases f)
     (auto simp: callFn_def Let_def promises_unchanged
        intro!: keeps_resolveFn [OF r] keeps_handleRejection [OF r] keeps_Some
          keeps_rec [OF r] keeps_PromiseReject [OF r] keeps_bind keeps_ret keeps_try_finally
        intro: frozen_same)

lemma keeps_callListener:
  assumes r: "rec_keeps rec"
  shows "frozen s0 s \<Longrightarrow> keeps s0 (callListener rec cb p l s)"
  unfolding callListener_def Let_def
  by (intro keeps_try_finally keeps_try_catch keeps_decRef [OF r])
     (auto simp: promises_unchanged
        intro!: keeps_bind keeps_rec [OF r] intro: frozen_same)

lemma keeps_runTask:
  assumes r: "rec_keeps rec"
  shows "frozen s0 s \<Longrightarrow> keeps s0 (runTask rec t s)"
  by (cases t)
     (auto simp: runTask_def promises_unchanged
        intro!: keeps_callListener [OF r] keeps_ret intro: frozen_same)

lemma keeps_endMicroTickScope:
  assumes r: "rec_keeps rec"
  shows "frozen s0 s \<Longrightarrow> keeps s0 (endMicroTickScope rec s)"
  unfolding endMicroTickScope_def Let_def
  by (auto intro!: keeps_bind keeps_forEach keeps_runTask [OF r] keeps_rec [OF r] keeps_ret
        intro: frozen_same)

lemma rec_keeps_exec: "rec_keeps (exec n)"
proof (induction n)
  case 0
  show ?case by (simp add: rec_keeps_def keeps_def)
next
  case (Suc n)
  show ?case
    unfolding rec_keeps_def
  proof (intro allI impI)
    fix c s0 s
    assume f: "frozen s0 s"
    show "keeps s0 (exec (Suc n) c s)"
      by (cases c)
         (simp_all add: keeps_callFn [OF Suc f] keeps_endMicroTickScope [OF Suc f]
            keeps_finalize [OF Suc f])
  qed
qed

lemmas keeps_exec = keeps_rec [OF rec_keeps_exec]

lemma keeps_PromiseCtor:
  assumes r: "rec_keeps rec" and b: "\<And>p s1. frozen s0 s1 \<Longrightarrow> keeps s0 (fn p s1)"
  shows "frozen s0 s \<Longrightarrow> keeps s0 (PromiseCtor rec fn s)"
  unfolding PromiseCtor_def Let_def
  by (auto split: prod.splits dest!: arg_cong [where f = snd] simp: promises_unchanged
        intro!: keeps_bind keeps_ret keeps_executePromiseTask [OF r] b
        intro: frozen_same [OF frozen_alloc])

lemma keeps_then_orig:
  assumes r: "rec_keeps rec"
  shows "frozen s0 s \<Longrightarrow> keeps s0 (then_orig rec this onF onR s)"
  unfolding then_orig_def
  by (intro keeps_PromiseCtor [OF r] keeps_propagateToListener [OF r])

lemma keeps_Promise_then:
  assumes r: "rec_keeps rec"
  shows "frozen s0 s \<Longrightarrow> keeps s0 (Promise_then rec this onF onR s)"
  by (simp add: Promise_then_def keeps_then_orig [OF r])

lemma keeps_Promise_catch:
  assumes r: "rec_keeps rec"
  shows "frozen s0 s \<Longrightarrow> keeps s0 (Promise_catch rec this args s)"
  by (auto simp: Promise_catch_def keeps_Promise_then [OF r]
        split: catch_args.splits catch_type.splits)

lemma keeps_Promise_resolve:
  assumes r: "rec_keeps rec"
  shows "frozen s0 s \<Longrightarrow> keeps s0 (Promise_resolve rec v s)"
  by (cases v)
     (auto simp: Promise_resolve_def
        intro!: keeps_ret keeps_PromiseInternal [OF r] keeps_PromiseCtor [OF r]
          keeps_run_actions [OF r])

lemma keeps_Promise_race:
  assumes r: "rec_keeps rec"
  shows "frozen s0 s \<Longrightarrow> keeps s0 (Promise_race rec vs s)"
  unfolding Promise_race_def
  by (intro keeps_PromiseCtor [OF r] keeps_forEach keeps_bind keeps_Promise_resolve [OF r])
     (auto split: val.splits intro!: keeps_ret keeps_Promise_then [OF r])

lemma keeps_physicalTick:
  assumes r: "rec_keeps rec"
  shows "frozen s0 s \<Longrightarrow> keeps s0 (physicalTick rec s)"
  unfolding physicalTick_def
  by (auto simp: beginMicroTickScope_def
        intro!: keeps_endMicroTickScope [OF r] keeps_ret intro: frozen_same)

lemma keeps_run_op: "frozen s0 s \<Longrightarrow> keeps s0 (run_op n c s)"
  by (cases c)
     (auto simp: run_op_def Promise_finally_def
        intro!: keeps_exec keeps_PromiseCtor keeps_run_actions keeps_Promise_then
          keeps_Promise_catch keeps_Promise_resolve keeps_PromiseReject keeps_Promise_race
          keeps_physicalTick rec_keeps_exec keeps_ret intro: frozen_same)

lemma frozen_run_ops: "frozen s0 s \<Longrightarrow> run_ops n cs s = Some s' \<Longrightarrow> frozen s0 s'"
proof (induction cs arbitrary: s)
  case Nil
  then show ?case by simp
next
  case (Cons c cs)
  from Cons.prems(2) obtain out s1 where c: "run_op n c s = Some (out, s1)"
    and cs: "run_ops n cs s1 = Some s'"
    by (auto split: option.splits)
  from keeps_run_op [OF Cons.prems(1), of n c] c have "frozen s0 s1"
    by (simp add: keeps_def)
  then show ?case using cs by (rule Cons.IH)
qed

text \<open>
  C1: a promise \<open>p\<close> that is settled keeps its state and its value through any later
  sequence of calls of a client, in particular calls of the resolve and reject
  capabilities of \<open>p\<close>, and physical ticks: its state can change only while it is pending,
  hence at most once and only from pending to fulfilled or rejected.
\<close>

theorem C1_settled_promise_is_frozen:
  assumes "run_ops n cs s = Some s'" and "p < length (promises s)"
    and "p_state (promises s ! p) \<noteq> None"
  shows "p < length (promises s') \<and> p_state (promises s' ! p) = p_state (promises s ! p) \<and>
         p_value (promises s' ! p) = p_value (promises s ! p)"
  using frozen_run_ops [OF frozen_refl assms(1)] assms(2,3)
  by (auto simp: frozen_def)

theorem C1_witness:
  "\<exists>s s'. settled_once = Some s \<and> run_ops 6 late_calls s = Some s' \<and>
     0 < length (promises s) \<and> p_state (promises s ! 0) = Some True \<and>
     p_state (promises s' ! 0) = Some True \<and> p_value (promises s' ! 0) = Num 1"
proof -
  have "(case settled_once of None \<Rightarrow> False
         | Some s \<Rightarrow> 0 < length (promises s) \<and> p_state (promises s ! 0) = Some True \<and>
             p_value (promises s ! 0) = Num 1 \<and> run_ops 6 late_calls s \<noteq> None)"
    unfolding settled_once_def late_calls_def by code_simp
  then obtain s s' where s: "settled_once = Some s" and l: "0 < length (promises s)"
    and st: "p_state (promises s ! 0) = Some True" and v: "p_value (promises s ! 0) = Num 1"
    and r: "run_ops 6 late_calls s = Some s'"
    by (auto split: option.splits)
  have "p_state (promises s ! 0) \<noteq> None" using st by simp
  from C1_settled_promise_is_frozen [OF r l this] s r l st v show ?thesis by auto
qed

section \<open>Registering possibly unhandled rejections\<close>

lemma strict_eq_sym: "strict_eq a b = strict_eq b a"
  by (auto simp: strict_eq_def split: val.splits)

lemma strict_eq_refl: "a \<noteq> NaN \<Longrightarrow> strict_eq a a"
  by (auto simp: strict_eq_def split: val.splits)

lemma one_per_reason_append:
  "one_per_reason r (qs @ [p]) =
     (one_per_reason r qs \<and> \<not> list_ex (\<lambda>q. strict_eq (r q) (r p)) qs)"
  by (induction qs) (auto simp: list_ex_iff)

lemma unhandledErrors_add:
  "unhandledErrors (addPossiblyUnhandledError p s) =
     (if list_ex (\<lambda>q. strict_eq (reason_of s q) (reason_of s p)) (unhandledErrors s)
      then unhandledErrors s else unhandledErrors s @ [p])"
  by (simp add: addPossiblyUnhandledError_def reason_of_def)

lemma reason_add: "reason_of (addPossiblyUnhandledError p s) = reason_of s"
  by (simp add: reason_of_def addPossiblyUnhandledError_def fun_eq_iff)

lemma one_per_reason_add:
  "one_per_reason (reason_of s) (unhandledErrors s) \<Longrightarrow>
   one_per_reason (reason_of s) (unhandledErrors (addPossiblyUnhandledError p s))"
  by (simp add: unhandledErrors_add one_per_reason_append)

lemma fold_add:
  "one_per_reason (reason_of s) (unhandledErrors s) \<Longrightarrow>
   reason_of (fold addPossiblyUnhandledError ps s) = reason_of s \<and>
   one_per_reason (reason_of s) (unhandledErrors (fold addPossiblyUnhandledError ps s)) \<and>
   take (length (unhandledErrors s)) (unhandledErrors (fold addPossiblyUnhandledError ps s)) =
     unhandledErrors s \<and>
   (\<forall>p\<in>set ps. reason_of s p \<noteq> NaN \<longrightarrow>
      list_ex (\<lambda>q. strict_eq (reason_of s q) (reason_of s p))
        (unhandledErrors (fold addPossiblyUnhandledError ps s)))"
proof (induction ps arbitrary: s)
  case Nil
  then show ?case by simp
next
  case (Cons p ps)
  let ?s1 = "addPossiblyUnhandledError p s"
  have r1: "reason_of ?s1 = reason_of s" by (rule reason_add)
  have o1: "one_per_reason (reason_of ?s1) (unhandledErrors ?s1)"
    using Cons.prems by (simp add: r1 one_per_reason_add)
  note ih = Cons.IH [OF o1, unfolded r1]
  have pre: "take (length (unhandledErrors s)) (unhandledErrors ?s1) = unhandledErrors s"
    by (simp add: unhandledErrors_add)
  have le: "length (unhandledErrors s) \<le> length (unhandledErrors ?s1)"
    by (simp add: unhandledErrors_add)
  let ?u = "unhandledErrors (fold addPossiblyUnhandledError ps ?s1)"
  have keep: "take (length (unhandledErrors ?s1)) ?u = unhandledErrors ?s1"
    using ih by simp
  have "take (length (unhandledErrors s)) ?u =
        take (length (unhandledErrors s)) (take (length (unhandledErrors ?s1)) ?u)"
    using le by (simp add: min_def)
  then have t: "take (length (unhandledErrors s)) ?u = unhandledErrors s"
    using keep pre by simp
  have here: "reason_of s p \<noteq> NaN \<Longrightarrow>
      list_ex (\<lambda>q. strict_eq (reason_of s q) (reason_of s p)) (unhandledErrors ?s1)"
    by (auto simp: unhandledErrors_add strict_eq_refl list_ex_iff)
  have "set (unhandledErrors ?s1) \<subseteq> set ?u"
    using keep by (metis set_take_subset)
  with here have first: "reason_of s p \<noteq> NaN \<Longrightarrow>
      list_ex (\<lambda>q. strict_eq (reason_of s q) (reason_of s p)) ?u"
    by (auto simp: list_ex_iff)
  show ?case
    using ih t first by simp
qed

section \<open>Running one scheduled listener\<close>

lemma exec_Suc:
  "exec (Suc n) (CCall f v) s = callFn (exec n) f v s"
  "exec (Suc n) CEndMicroTick s = endMicroTickScope (exec n) s"
  "exec (Suc n) (CFinalize z) s = finalize (exec n) z s"
  by simp_all







lemma callFn_UserFn:
  "exec (Suc n) (CCall (UserFn i body) v) s = Some (body v, s\<lparr> trace := trace s @ [Called i v] \<rparr>)"
  by (simp add: callFn_def)










lemma zones_wf_zones: "zones s' = zones s \<Longrightarrow> zones_wf s' = zones_wf s"
  by (simp add: zones_wf_def)



lemma fold_globalError:
  "fold (\<lambda>p. globalError (f p) p) xs s =
     s\<lparr> trace := trace s @ map (\<lambda>p. UnhandledRejection (f p) p) xs \<rparr>"
  by (induction xs arbitrary: s) (simp_all add: globalError_def)

lemma finalizePhysicalTick_eq:
  "finalizePhysicalTick s =
     s\<lparr> unhandledErrors := [],
        trace := trace s @ map (\<lambda>p. UnhandledRejection (p_value (promises s ! p)) p)
                             (unhandledErrors s) \<rparr>"
  by (simp add: finalizePhysicalTick_def fold_globalError Let_def)




lemma drain_start_unchanged:
  "promises (drain_start st s) = promises s"
  "zones (drain_start st s) = zones s"
  "PSD (drain_start st s) = PSD s"
  "microtickQueue (drain_start st s) = []"
  "numScheduledCalls (drain_start st s) = numScheduledCalls s"
  "rejectionMapper (drain_start st s) = rejectionMapper s"
  "trace (drain_start st s) = trace s"
  "zones_wf (drain_start st s) = zones_wf s"
  by (simp_all add: drain_start_def zones_wf_def Let_def)

lemma tick_end_check_id: "numScheduledCalls s \<noteq> 0 \<Longrightarrow> tick_end_check s = s"
  by (simp add: tick_end_check_def)












section \<open>C6: catch with a filter\<close>











section \<open>C7: finally\<close>




section \<open>Capabilities are held only where they were handed\<close>

lemma may_hold_mono:
  "length (promises s) \<le> length (promises s') \<Longrightarrow> may_hold P s \<subseteq> may_hold P s'"
  by (auto simp: may_hold_def)

lemma safe_None: "safe P s None"
  by (simp add: safe_def)

lemma safe_Some: "sound P s' \<Longrightarrow> length (promises s) \<le> length (promises s') \<Longrightarrow>
    safe P s (Some (out, s'))"
  by (simp add: safe_def)

lemma safe_ret: "sound P s' \<Longrightarrow> length (promises s) \<le> length (promises s') \<Longrightarrow>
    safe P s (ret v s')"
  by (simp add: safe_def ret_def)

lemma safe_weaken:
  "safe P s1 m \<Longrightarrow> length (promises s) \<le> length (promises s1) \<Longrightarrow> safe P s m"
  by (auto simp: safe_def)

lemma safe_step:
  assumes "safe P s m" and "m = Some (out, s1)" and "safe P s1 k"
  shows "safe P s k"
proof -
  from assms(1,2) have "length (promises s) \<le> length (promises s1)"
    by (simp add: safe_def)
  with assms(3) show ?thesis
    unfolding safe_def by (auto intro: le_trans)
qed

lemma safe_bind:
  assumes "safe P s m"
    and "\<And>v s1. sound P s1 \<Longrightarrow> length (promises s) \<le> length (promises s1) \<Longrightarrow>
           safe P s1 (f v s1)"
  shows "safe P s (bind_r m f)"
proof (cases m)
  case None
  then show ?thesis by (simp add: bind_r_def safe_None)
next
  case (Some r)
  obtain out s1 where r: "r = (out, s1)" by (cases r)
  from assms(1) Some r have s1: "sound P s1" "length (promises s) \<le> length (promises s1)"
    by (simp_all add: safe_def)
  show ?thesis
  proof (cases out)
    case (Return v)
    have "safe P s (f v s1)"
      using assms(1) _ assms(2) [OF s1]
      by (rule safe_step) (simp add: Some r)
    then show ?thesis using Some r Return by (simp add: bind_r_def)
  next
    case (Throw e)
    then show ?thesis using Some r assms(1) by (simp add: bind_r_def)
  qed
qed

lemma safe_try_catch:
  assumes "safe P s m"
    and "\<And>e s1. sound P s1 \<Longrightarrow> length (promises s) \<le> length (promises s1) \<Longrightarrow>
           safe P s1 (h e s1)"
  shows "safe P s (try_catch m h)"
proof (cases m)
  case None
  then show ?thesis by (simp add: try_catch_def safe_None)
next
  case (Some r)
  obtain out s1 where r: "r = (out, s1)" by (cases r)
  from assms(1) Some r have s1: "sound P s1" "length (promises s) \<le> length (promises s1)"
    by (simp_all add: safe_def)
  show ?thesis
  proof (cases out)
    case (Throw e)
    have "safe P s (h e s1)"
      using assms(1) _ assms(2) [OF s1]
      by (rule safe_step) (simp add: Some r)
    then show ?thesis using Some r Throw by (simp add: try_catch_def)
  next
    case (Return v)
    then show ?thesis using Some r assms(1) by (simp add: try_catch_def)
  qed
qed

lemma safe_try_finally:
  assumes "safe P s m"
    and "\<And>s1. sound P s1 \<Longrightarrow> length (promises s) \<le> length (promises s1) \<Longrightarrow>
           safe P s1 (c s1)"
  shows "safe P s (try_finally m c)"
proof (cases m)
  case None
  then show ?thesis by (simp add: try_finally_def safe_None)
next
  case (Some r)
  obtain out s1 where r: "r = (out, s1)" by (cases r)
  from assms(1) Some r have s1: "sound P s1" "length (promises s) \<le> length (promises s1)"
    by (simp_all add: safe_def)
  have c: "safe P s (c s1)"
    using assms(1) _ assms(2) [OF s1]
    by (rule safe_step) (simp add: Some r)
  show ?thesis
    unfolding safe_def
  proof (intro allI impI)
    fix out' s'
    assume "try_finally m c = Some (out', s')"
    then obtain o2 where "c s1 = Some (o2, s')"
      using Some r by (auto simp: try_finally_def split: option.splits outcome.splits)
    with c show "sound P s' \<and> length (promises s) \<le> length (promises s')"
      by (simp add: safe_def)
  qed
qed

lemma safe_forEach:
  assumes "\<And>x s1. x \<in> set xs \<Longrightarrow> sound P s1 \<Longrightarrow> length (promises s) \<le> length (promises s1) \<Longrightarrow>
             safe P s1 (f x s1)"
    and "sound P s"
  shows "safe P s (forEach f xs s)"
  using assms
proof (induction xs arbitrary: s)
  case Nil
  then show ?case by (simp add: safe_ret)
next
  case (Cons x xs)
  show ?case
    unfolding forEach.simps
  proof (rule safe_bind)
    show "safe P s (f x s)" using Cons.prems by simp
  next
    fix v s1
    assume s1: "sound P s1" and le: "length (promises s) \<le> length (promises s1)"
    show "safe P s1 (forEach f xs s1)"
    proof (rule Cons.IH [OF _ s1])
      fix y s2
      assume "y \<in> set xs" "sound P s2" "length (promises s1) \<le> length (promises s2)"
      then show "safe P s2 (f y s2)"
        using Cons.prems(1) [of y s2] le by simp
    qed
  qed
qed

lemma one_per_reason_cong:
  "(\<And>q. q \<in> set xs \<Longrightarrow> r q = r' q) \<Longrightarrow> one_per_reason r xs = one_per_reason r' xs"
  by (induction xs) (auto simp: list_ex_iff)

lemma one_per_reason_remove:
  "one_per_reason r (xs @ y # ys) \<Longrightarrow> one_per_reason r (xs @ ys)"
  by (induction xs) (auto simp: list_ex_iff)

lemma markLoop_cases:
  "i \<le> length xs \<Longrightarrow>
   markLoop i Q xs = xs \<or> (\<exists>j<length xs. markLoop i Q xs = take j xs @ drop (Suc j) xs)"
proof (induction i)
  case 0
  then show ?case by simp
next
  case (Suc i)
  show ?case
  proof (cases "Q (xs ! i)")
    case True
    have "i < length xs" using Suc.prems by simp
    moreover have "markLoop (Suc i) Q xs = take i xs @ drop (Suc i) xs"
      using True by simp
    ultimately show ?thesis by blast
  next
    case False
    then show ?thesis using Suc by simp
  qed
qed

lemma reason_of_cong: "promises s' = promises s \<Longrightarrow> reason_of s' = reason_of s"
  by (simp add: reason_of_def fun_eq_iff)

lemma markLoop_sound:
  assumes "one_per_reason r xs"
  shows "one_per_reason r (markLoop (length xs) Q xs) \<and> set (markLoop (length xs) Q xs) \<subseteq> set xs"
proof -
  from markLoop_cases [of "length xs" xs Q]
  consider "markLoop (length xs) Q xs = xs"
    | j where "j < length xs" "markLoop (length xs) Q xs = take j xs @ drop (Suc j) xs"
    by auto
  then show ?thesis
  proof cases
    case 1
    then show ?thesis using assms by simp
  next
    case 2
    have "xs = take j xs @ xs ! j # drop (Suc j) xs"
      using 2(1) by (simp add: id_take_nth_drop)
    with assms have "one_per_reason r (take j xs @ xs ! j # drop (Suc j) xs)" by simp
    then have "one_per_reason r (take j xs @ drop (Suc j) xs)"
      by (rule one_per_reason_remove)
    moreover have "set (take j xs @ drop (Suc j) xs) \<subseteq> set xs"
      using set_take_subset [of j xs] set_drop_subset [of "Suc j" xs] by auto
    ultimately show ?thesis using 2(2) by simp
  qed
qed

lemma sound_same:
  assumes "sound P s" and "promises s' = promises s" and "microtickQueue s' = microtickQueue s"
    and "unhandledErrors s' = unhandledErrors s"
  shows "sound P s'"
  using assms by (simp add: sound_def may_hold_def reason_of_cong [of s' s])

lemma sound_asap:
  assumes "sound P s" and "tcaps t \<subseteq> may_hold P s"
  shows "sound P (asap t s)"
proof -
  have "sound P (s\<lparr> microtickQueue := microtickQueue s @ [t] \<rparr>)"
    using assms
    by (auto simp: sound_def may_hold_def
          reason_of_cong [of "s\<lparr> microtickQueue := microtickQueue s @ [t] \<rparr>" s])
  then show ?thesis
    by (rule sound_same) (simp_all add: asap_def Let_def)
qed

lemma sound_queue:
  assumes "sound P s" and "set q \<subseteq> set (microtickQueue s)"
  shows "sound P (s\<lparr> microtickQueue := q \<rparr>)"
  using assms
  by (auto simp: sound_def may_hold_def reason_of_cong [of "s\<lparr> microtickQueue := q \<rparr>" s])

lemma sound_listeners:
  assumes "sound P s"
    and "\<And>pr. set (g pr) \<subseteq> set (p_listeners pr) \<union> {l. lcaps l \<subseteq> may_hold P s}"
  shows "sound P (set_promise p (\<lambda>pr. pr\<lparr> p_listeners := g pr \<rparr>) s)"
proof (cases "p < length (promises s)")
  case False
  then have "set_promise p (\<lambda>pr. pr\<lparr> p_listeners := g pr \<rparr>) s = s"
    by (simp add: set_promise_def list_update_beyond not_less)
  with assms(1) show ?thesis by simp
next
  case True
  let ?s' = "set_promise p (\<lambda>pr. pr\<lparr> p_listeners := g pr \<rparr>) s"
  have st: "\<And>i. i < length (promises s) \<Longrightarrow>
      p_state (promises ?s' ! i) = p_state (promises s ! i) \<and>
      p_value (promises ?s' ! i) = p_value (promises s ! i)"
    using True by (simp add: set_promise_def nth_list_update)
  have li: "\<And>i. i < length (promises s) \<Longrightarrow>
      set (p_listeners (promises ?s' ! i)) \<subseteq>
        set (p_listeners (promises s ! i)) \<union> {l. lcaps l \<subseteq> may_hold P s}"
    using assms(2) True by (auto simp: set_promise_def nth_list_update)
  have r: "\<And>q. q \<in> set (unhandledErrors s) \<Longrightarrow> reason_of ?s' q = reason_of s q"
    using assms(1) st by (simp add: sound_def reason_of_def)
  have o: "one_per_reason (reason_of ?s') (unhandledErrors s) =
           one_per_reason (reason_of s) (unhandledErrors s)"
    by (rule one_per_reason_cong) (rule r)
  have m: "may_hold P ?s' = may_hold P s"
    by (simp add: may_hold_def set_promise_def)
  have len: "length (promises ?s') = length (promises s)"
    and mq: "microtickQueue ?s' = microtickQueue s"
    and ue: "unhandledErrors ?s' = unhandledErrors s"
    by (simp_all add: set_promise_def)
  from assms(1) have a1: "\<And>i l. i < length (promises s) \<Longrightarrow> l \<in> set (p_listeners (promises s ! i)) \<Longrightarrow>
      lcaps l \<subseteq> may_hold P s"
    and a2: "\<And>t. t \<in> set (microtickQueue s) \<Longrightarrow> tcaps t \<subseteq> may_hold P s"
    and a3: "\<And>q. q \<in> P \<Longrightarrow> q < length (promises s) \<and> p_state (promises s ! q) = None"
    and a4: "\<And>q. q \<in> set (unhandledErrors s) \<Longrightarrow>
      q < length (promises s) \<and> p_state (promises s ! q) \<noteq> None"
    and a5: "one_per_reason (reason_of s) (unhandledErrors s)"
    by (auto simp: sound_def)
  show ?thesis
    unfolding sound_def m len mq ue
  proof (intro conjI ballI)
    fix i l
    assume "i \<in> {..<length (promises s)}" "l \<in> set (p_listeners (promises ?s' ! i))"
    then show "lcaps l \<subseteq> may_hold P s"
      using li [of i] a1 [of i l] by auto
  next
    fix t assume "t \<in> set (microtickQueue s)"
    then show "tcaps t \<subseteq> may_hold P s" by (rule a2)
  next
    fix q assume "q \<in> P"
    then show "q < length (promises s)" "p_state (promises ?s' ! q) = None"
      using a3 [of q] st [of q] by simp_all
  next
    fix q assume "q \<in> set (unhandledErrors s)"
    then show "q < length (promises s)" "p_state (promises ?s' ! q) \<noteq> None"
      using a4 [of q] st [of q] by simp_all
  next
    show "one_per_reason (reason_of ?s') (unhandledErrors s)"
      using o a5 by simp
  qed
qed

lemma soundD:
  assumes "sound P s"
  shows "\<And>i l. i < length (promises s) \<Longrightarrow> l \<in> set (p_listeners (promises s ! i)) \<Longrightarrow>
      lcaps l \<subseteq> may_hold P s"
    and "\<And>t. t \<in> set (microtickQueue s) \<Longrightarrow> tcaps t \<subseteq> may_hold P s"
    and "\<And>q. q \<in> P \<Longrightarrow> q < length (promises s) \<and> p_state (promises s ! q) = None"
    and "\<And>q. q \<in> set (unhandledErrors s) \<Longrightarrow>
      q < length (promises s) \<and> p_state (promises s ! q) \<noteq> None"
    and "one_per_reason (reason_of s) (unhandledErrors s)"
  using assms by (auto simp: sound_def)

lemma soundI:
  assumes "\<And>i l. i < length (promises s) \<Longrightarrow> l \<in> set (p_listeners (promises s ! i)) \<Longrightarrow>
      lcaps l \<subseteq> may_hold P s"
    and "\<And>t. t \<in> set (microtickQueue s) \<Longrightarrow> tcaps t \<subseteq> may_hold P s"
    and "\<And>q. q \<in> P \<Longrightarrow> q < length (promises s) \<and> p_state (promises s ! q) = None"
    and "\<And>q. q \<in> set (unhandledErrors s) \<Longrightarrow>
      q < length (promises s) \<and> p_state (promises s ! q) \<noteq> None"
    and "one_per_reason (reason_of s) (unhandledErrors s)"
  shows "sound P s"
  using assms unfolding sound_def by blast

lemma sound_settle:
  assumes s: "sound P s" and p: "p \<notin> P" and pend: "p_state (promises s ! p) = None"
  shows "sound P (set_promise p (\<lambda>pr. pr\<lparr> p_state := Some b, p_value := v \<rparr>) s)"
proof (cases "p < length (promises s)")
  case False
  then have "set_promise p (\<lambda>pr. pr\<lparr> p_state := Some b, p_value := v \<rparr>) s = s"
    by (simp add: set_promise_def list_update_beyond not_less)
  with s show ?thesis by simp
next
  case True
  let ?s' = "set_promise p (\<lambda>pr. pr\<lparr> p_state := Some b, p_value := v \<rparr>) s"
  note a = soundD [OF s]
  have oth: "\<And>i. i < length (promises s) \<Longrightarrow> i \<noteq> p \<Longrightarrow> promises ?s' ! i = promises s ! i"
    by (simp add: set_promise_def)
  have li: "\<And>i. i < length (promises s) \<Longrightarrow>
      p_listeners (promises ?s' ! i) = p_listeners (promises s ! i)"
    using True by (simp add: set_promise_def nth_list_update)
  have m: "may_hold P ?s' = may_hold P s"
    by (simp add: may_hold_def set_promise_def)
  have len: "length (promises ?s') = length (promises s)"
    and mq: "microtickQueue ?s' = microtickQueue s"
    and ue: "unhandledErrors ?s' = unhandledErrors s"
    by (simp_all add: set_promise_def)
  have np: "\<And>q. q \<in> set (unhandledErrors s) \<Longrightarrow> q \<noteq> p"
  proof
    fix q assume "q \<in> set (unhandledErrors s)" "q = p"
    with a(4) [of q] pend show False by simp
  qed
  have "one_per_reason (reason_of ?s') (unhandledErrors s) =
        one_per_reason (reason_of s) (unhandledErrors s)"
    by (rule one_per_reason_cong) (use a(4) np oth in \<open>simp add: reason_of_def\<close>)
  with a(5) have o: "one_per_reason (reason_of ?s') (unhandledErrors s)" by simp
  show ?thesis
  proof (rule soundI; unfold m len mq ue)
    fix i l
    assume "i < length (promises s)" "l \<in> set (p_listeners (promises ?s' ! i))"
    then show "lcaps l \<subseteq> may_hold P s" using a(1) [of i l] li [of i] by simp
  next
    fix t assume "t \<in> set (microtickQueue s)"
    then show "tcaps t \<subseteq> may_hold P s" by (rule a(2))
  next
    fix q assume q: "q \<in> P"
    with p have "q \<noteq> p" by auto
    with a(3) [OF q] oth [of q]
    show "q < length (promises s) \<and> p_state (promises ?s' ! q) = None" by simp
  next
    fix q assume q: "q \<in> set (unhandledErrors s)"
    with a(4) [OF q] np [OF q] oth [of q]
    show "q < length (promises s) \<and> p_state (promises ?s' ! q) \<noteq> None" by simp
  next
    show "one_per_reason (reason_of ?s') (unhandledErrors s)" by (rule o)
  qed
qed

lemma sound_unhandled:
  assumes s: "sound P s" and p: "promises s' = promises s"
    and mq: "microtickQueue s' = microtickQueue s"
    and sub: "set (unhandledErrors s') \<subseteq> set (unhandledErrors s) \<union>
                {q. q < length (promises s) \<and> p_state (promises s ! q) \<noteq> None}"
    and o: "one_per_reason (reason_of s) (unhandledErrors s')"
  shows "sound P s'"
proof -
  note a = soundD [OF s]
  have m: "may_hold P s' = may_hold P s" by (simp add: may_hold_def p)
  show ?thesis
  proof (rule soundI; unfold m p mq reason_of_cong [OF p])
    fix q assume "q \<in> set (unhandledErrors s')"
    then show "q < length (promises s) \<and> p_state (promises s ! q) \<noteq> None"
      using sub a(4) by auto
  qed (use a o in auto)
qed

lemma sound_add:
  assumes "sound P s" and "p < length (promises s)" and "p_state (promises s ! p) \<noteq> None"
  shows "sound P (addPossiblyUnhandledError p s)"
  using assms(1)
proof (rule sound_unhandled)
  show "one_per_reason (reason_of s) (unhandledErrors (addPossiblyUnhandledError p s))"
    using soundD(5) [OF assms(1)] by (rule one_per_reason_add)
  show "set (unhandledErrors (addPossiblyUnhandledError p s)) \<subseteq> set (unhandledErrors s) \<union>
          {q. q < length (promises s) \<and> p_state (promises s ! q) \<noteq> None}"
    using assms(2,3) by (auto simp: addPossiblyUnhandledError_def)
qed (simp_all add: addPossiblyUnhandledError_def)

lemma sound_mark:
  assumes "sound P s"
  shows "sound P (markErrorAsHandled p s)"
  using assms
proof (rule sound_unhandled)
  let ?Q = "\<lambda>q. strict_eq (p_value (promises s ! q)) (p_value (promises s ! p))"
  from markLoop_sound [OF soundD(5) [OF assms], of ?Q]
  show "one_per_reason (reason_of s) (unhandledErrors (markErrorAsHandled p s))"
    and "set (unhandledErrors (markErrorAsHandled p s)) \<subseteq> set (unhandledErrors s) \<union>
          {q. q < length (promises s) \<and> p_state (promises s ! q) \<noteq> None}"
    by (auto simp: markErrorAsHandled_def)
qed (simp_all add: markErrorAsHandled_def)

lemma sound_finalizePhysicalTick:
  assumes "sound P s"
  shows "sound P (finalizePhysicalTick s)"
  using assms
  by (rule sound_unhandled) (simp_all add: finalizePhysicalTick_eq)

lemma sound_scheduledCallDone:
  assumes "sound P s"
  shows "sound P (scheduledCallDone s)"
proof -
  have "sound P (s\<lparr> numScheduledCalls := numScheduledCalls s - 1 \<rparr>)"
    using assms by (rule sound_same) simp_all
  then show ?thesis
    unfolding scheduledCallDone_def Let_def
    by (auto intro: sound_finalizePhysicalTick)
qed

lemma sound_alloc:
  assumes s: "sound P s" and nl: "p_listeners pr = []"
  shows "sound P (s\<lparr> promises := promises s @ [pr] \<rparr>)"
proof -
  let ?s' = "s\<lparr> promises := promises s @ [pr] \<rparr>"
  note a = soundD [OF s]
  have m: "may_hold P s \<subseteq> may_hold P ?s'"
    by (rule may_hold_mono) simp
  have old: "\<And>i. i < length (promises s) \<Longrightarrow> promises ?s' ! i = promises s ! i"
    by (simp add: nth_append)
  have "one_per_reason (reason_of ?s') (unhandledErrors s) =
        one_per_reason (reason_of s) (unhandledErrors s)"
    by (rule one_per_reason_cong) (use a(4) old in \<open>simp add: reason_of_def\<close>)
  with a(5) have o: "one_per_reason (reason_of ?s') (unhandledErrors ?s')" by simp
  show ?thesis
  proof (rule soundI)
    fix i l
    assume i: "i < length (promises ?s')" and l: "l \<in> set (p_listeners (promises ?s' ! i))"
    show "lcaps l \<subseteq> may_hold P ?s'"
    proof (cases "i < length (promises s)")
      case True
      with l old [of i] a(1) [of i l] m show ?thesis by auto
    next
      case False
      with i have "i = length (promises s)" by simp
      with l nl show ?thesis by simp
    qed
  next
    fix t assume "t \<in> set (microtickQueue ?s')"
    then show "tcaps t \<subseteq> may_hold P ?s'" using a(2) [of t] m by auto
  next
    fix q assume "q \<in> P"
    then show "q < length (promises ?s') \<and> p_state (promises ?s' ! q) = None"
      using a(3) [of q] old [of q] by auto
  next
    fix q assume "q \<in> set (unhandledErrors ?s')"
    then show "q < length (promises ?s') \<and> p_state (promises ?s' ! q) \<noteq> None"
      using a(4) [of q] old [of q] by auto
  next
    show "one_per_reason (reason_of ?s') (unhandledErrors ?s')" by (rule o)
  qed
qed

lemma safe_rec:
  "rec_safe P rec \<Longrightarrow> sound P s \<Longrightarrow> ccaps c \<subseteq> may_hold P s \<Longrightarrow> safe P s (rec c s)"
  by (simp add: rec_safe_def)

lemma safe_same:
  assumes "safe P s1 m" and "length (promises s1) = length (promises s)"
  shows "safe P s m"
  using assms by (simp add: safe_def)

lemma may_hold_same: "promises s' = promises s \<Longrightarrow> may_hold P s' = may_hold P s"
  by (simp add: may_hold_def)

lemma safe_decRef:
  assumes r: "rec_safe P rec" and s: "sound P s"
  shows "safe P s (decRef rec z s)"
proof -
  let ?s1 = "set_ref z (z_ref (zones s ! z) - 1) s"
  have s1: "sound P ?s1" using s by (rule sound_same) (simp_all add: set_ref_def)
  have l: "length (promises ?s1) = length (promises s)" by (simp add: set_ref_def)
  have "safe P ?s1 (rec (CFinalize z) ?s1)"
    using r s1 by (rule safe_rec) (simp add: ccaps_def)
  then have "safe P s (rec (CFinalize z) ?s1)" using l by (rule safe_same)
  moreover have "safe P s (ret Undefined ?s1)" using s1 l by (simp add: safe_ret)
  ultimately show ?thesis by (auto simp: decRef_def Let_def)
qed

lemma safe_finalize:
  assumes r: "rec_safe P rec" and s: "sound P s"
  shows "safe P s (finalize rec z s)"
proof -
  let ?s1 = "s\<lparr> trace := trace s @ [Finalized z] \<rparr>"
  have s1: "sound P ?s1" using s by (rule sound_same) simp_all
  have "safe P ?s1 (decRef rec (z_parent (zones ?s1 ! z)) ?s1)"
    using r s1 by (rule safe_decRef)
  then have "safe P s (decRef rec (z_parent (zones ?s1 ! z)) ?s1)"
    by (rule safe_same) simp
  moreover have "safe P s (ret Undefined ?s1)" using s1 by (simp add: safe_ret)
  ultimately show ?thesis by (simp add: finalize_def Let_def)
qed

lemma safe_propagateToListener:
  assumes r: "rec_safe P rec" and s: "sound P s" and l: "lcaps l \<subseteq> may_hold P s"
  shows "safe P s (propagateToListener rec p l s)"
proof (cases "p_state (promises s ! p)")
  case None
  have "sound P (set_promise p (\<lambda>pr. pr\<lparr> p_listeners := p_listeners pr @ [l] \<rparr>) s)"
    using s by (rule sound_listeners) (use l in auto)
  then show ?thesis
    using None by (simp add: propagateToListener_def safe_ret set_promise_fields)
next
  case (Some st)
  show ?thesis
  proof (cases "if st then onFulfilled l else onRejected l")
    case None
    have "ccaps (CCall (if st then resolve l else reject l) (p_value (promises s ! p)))
            \<subseteq> may_hold P s"
      using l by (auto simp: ccaps_def lcaps_def)
    from safe_rec [OF r s this] Some None show ?thesis
      by (simp add: propagateToListener_def)
  next
    case (Some cb)
    let ?s1 = "set_ref (psd l) (z_ref (zones s ! psd l) + 1) s"
    let ?s2 = "?s1\<lparr> numScheduledCalls := numScheduledCalls ?s1 + 1 \<rparr>"
    have s2: "sound P ?s2" using s by (rule sound_same) (simp_all add: set_ref_def)
    have "caps cb \<subseteq> lcaps l"
      using Some by (auto simp: lcaps_def ocaps_def split: if_splits)
    then have "tcaps (CallListener cb p l) \<subseteq> may_hold P ?s2"
      using l by (auto simp: tcaps_def may_hold_def set_ref_def)
    with s2 have "sound P (asap (CallListener cb p l) ?s2)" by (rule sound_asap)
    moreover have "length (promises (asap (CallListener cb p l) ?s2)) = length (promises s)"
      by (simp add: promises_unchanged)
    ultimately show ?thesis
      using \<open>p_state (promises s ! p) = Some st\<close> Some
      by (simp add: propagateToListener_def Let_def safe_ret)
  qed
qed

lemma safe_propagateAllListeners:
  assumes r: "rec_safe P rec" and s: "sound P s" and p: "p < length (promises s)"
  shows "safe P s (propagateAllListeners rec p s)"
proof -
  let ?ls = "p_listeners (promises s ! p)"
  let ?s1 = "set_promise p (\<lambda>pr. pr\<lparr> p_listeners := [] \<rparr>) s"
  have s1: "sound P ?s1" using s by (rule sound_listeners) simp
  have l1: "length (promises ?s1) = length (promises s)" by (simp add: set_promise_fields)
  have ls: "\<And>l. l \<in> set ?ls \<Longrightarrow> lcaps l \<subseteq> may_hold P s"
    using soundD(1) [OF s p] .
  have "safe P ?s1 (bind_r (forEach (propagateToListener rec p) ?ls ?s1) (\<lambda>_ s2.
         bind_r (decRef rec (p_PSD (promises s2 ! p)) s2) (\<lambda>_ s3.
           if numScheduledCalls s3 = 0
           then ret Undefined
                  (asap ScheduledCallDone (s3\<lparr> numScheduledCalls := numScheduledCalls s3 + 1 \<rparr>))
           else ret Undefined s3)))"
  proof (intro safe_bind safe_forEach s1)
    fix l s2
    assume "l \<in> set ?ls" "sound P s2" "length (promises ?s1) \<le> length (promises s2)"
    then show "safe P s2 (propagateToListener rec p l s2)"
      using ls [of l] may_hold_mono [of s s2 P] l1
      by (intro safe_propagateToListener r) auto
  next
    fix v s2
    assume "sound P s2"
    then show "safe P s2 (decRef rec (p_PSD (promises s2 ! p)) s2)"
      by (intro safe_decRef r)
  next
    fix v s3
    assume s3: "sound P s3"
    have "sound P (s3\<lparr> numScheduledCalls := numScheduledCalls s3 + 1 \<rparr>)"
      using s3 by (rule sound_same) simp_all
    then have "sound P (asap ScheduledCallDone (s3\<lparr> numScheduledCalls := numScheduledCalls s3 + 1 \<rparr>))"
      by (rule sound_asap) (simp add: tcaps_def)
    then show "safe P s3 (if numScheduledCalls s3 = 0
           then ret Undefined
                  (asap ScheduledCallDone (s3\<lparr> numScheduledCalls := numScheduledCalls s3 + 1 \<rparr>))
           else ret Undefined s3)"
      using s3 by (auto simp: safe_ret promises_unchanged)
  qed
  then have "safe P s (propagateAllListeners rec p s)"
    unfolding propagateAllListeners_def Let_def using l1 by (rule safe_same)
  then show ?thesis .
qed

lemma safe_tail:
  assumes r: "rec_safe P rec" and s: "sound P s"
  shows "safe P s (if b then rec CEndMicroTick s else ret Undefined s)"
  using safe_rec [OF r s, of CEndMicroTick] s by (simp add: ccaps_def safe_ret)

lemma libScope_sound:
  assumes "libScope p s = (b, s2)" and "sound P s"
  shows "sound P s2" and "promises s2 = promises s"
proof -
  from assms(1) show p: "promises s2 = promises s"
    by (auto simp: libScope_def beginMicroTickScope_def split: if_splits)
  from assms(1) have "microtickQueue s2 = microtickQueue s" "unhandledErrors s2 = unhandledErrors s"
    by (auto simp: libScope_def beginMicroTickScope_def split: if_splits)
  with assms(2) p show "sound P s2" by (intro sound_same [of P s s2])
qed

lemma may_holdD: "p \<in> may_hold P s \<Longrightarrow> p < length (promises s) \<and> p \<notin> P"
  by (simp add: may_hold_def)

lemma safe_handleRejection:
  assumes r: "rec_safe P rec" and s: "sound P s" and p: "p \<in> may_hold P s"
  shows "safe P s (handleRejection rec p reason s)"
proof -
  let ?s1 = "s\<lparr> rejectingErrors := rejectingErrors s @ [reason] \<rparr>"
  have s1: "sound P ?s1" using s by (rule sound_same) simp_all
  from may_holdD [OF p] have pl: "p < length (promises s)" and pP: "p \<notin> P" by simp_all
  show ?thesis
  proof (cases "p_state (promises s ! p)")
    case (Some st)
    then show ?thesis using s1 by (simp add: handleRejection_def Let_def safe_ret)
  next
    case None
    obtain b s2 where ls: "libScope p ?s1 = (b, s2)" by (cases "libScope p ?s1")
    from libScope_sound [OF ls s1] have s2: "sound P s2" and p2: "promises s2 = promises s"
      by simp_all
    let ?s3 = "set_promise p (\<lambda>pr. pr\<lparr> p_state := Some False,
                 p_value := rejectionMapper s2 reason \<rparr>) s2"
    have s3: "sound P ?s3" using s2 pP by (rule sound_settle) (simp add: p2 None)
    have l3: "length (promises ?s3) = length (promises s)"
      by (simp add: set_promise_fields p2)
    have st3: "p_state (promises ?s3 ! p) = Some False"
      using pl by (simp add: set_promise_def p2)
    let ?s4 = "addPossiblyUnhandledError p ?s3"
    have s4: "sound P ?s4" using s3 by (rule sound_add) (use pl l3 st3 in simp_all)
    have l4: "length (promises ?s4) = length (promises s)"
      by (simp add: promises_unchanged l3)
    have "safe P ?s4 (bind_r (propagateAllListeners rec p ?s4) (\<lambda>_ s5.
            if b then rec CEndMicroTick s5 else ret Undefined s5))"
      by (intro safe_bind safe_propagateAllListeners safe_tail r s4) (simp_all add: l4 pl)
    then have "safe P s (bind_r (propagateAllListeners rec p ?s4) (\<lambda>_ s5.
            if b then rec CEndMicroTick s5 else ret Undefined s5))"
      using l4 by (rule safe_same)
    then show ?thesis using None ls by (simp add: handleRejection_def Let_def)
  qed
qed

lemma safe_run_actions:
  assumes r: "rec_safe P rec"
  shows "sound P s \<Longrightarrow> caps res \<subseteq> may_hold P s \<Longrightarrow> caps rej \<subseteq> may_hold P s \<Longrightarrow>
    safe P s (run_actions rec res rej acts s)"
proof (induction acts arbitrary: s)
  case Nil
  then show ?case by (simp add: safe_ret)
next
  case (Cons a acts)
  have k: "\<And>v s1. sound P s1 \<Longrightarrow> length (promises s) \<le> length (promises s1) \<Longrightarrow>
             safe P s1 (run_actions rec res rej acts s1)"
    using Cons.prems(2,3) may_hold_mono [of s _ P] by (intro Cons.IH) auto
  show ?case
  proof (cases a)
    case (ActResolve v)
    have "safe P s (rec (CCall res v) s)"
      using r Cons.prems(1) by (rule safe_rec) (use Cons.prems(2) in \<open>simp add: ccaps_def\<close>)
    then show ?thesis using ActResolve k by (simp add: safe_bind)
  next
    case (ActReject v)
    have "safe P s (rec (CCall rej v) s)"
      using r Cons.prems(1) by (rule safe_rec) (use Cons.prems(3) in \<open>simp add: ccaps_def\<close>)
    then show ?thesis using ActReject k by (simp add: safe_bind)
  next
    case (ActThrow v)
    then show ?thesis using Cons.prems(1) by (simp add: safe_Some)
  qed
qed

lemma lcaps_Listener:
  "lcaps (Listener a b c d z) = ocaps a \<union> ocaps b \<union> caps c \<union> caps d"
  by (simp add: lcaps_def Listener_def)

lemma safe_then_internal:
  assumes r: "rec_safe P rec" and s: "sound P s"
    and "caps onF \<subseteq> may_hold P s" and "caps onR \<subseteq> may_hold P s"
  shows "safe P s (then_internal rec p onF onR s)"
  unfolding then_internal_def
  by (intro safe_propagateToListener r s) (use assms(3,4) in \<open>simp add: lcaps_Listener ocaps_def\<close>)

lemma safe_executePromiseTask:
  assumes r: "rec_safe P rec" and s: "sound P s" and p: "p \<in> may_hold P s"
    and f: "safe P s (fn s)"
  shows "safe P s (executePromiseTask rec p fn s)"
  unfolding executePromiseTask_def
proof (intro safe_try_catch f)
  fix e s1
  assume "sound P s1" "length (promises s) \<le> length (promises s1)"
  then show "safe P s1 (handleRejection rec p e s1)"
    using p may_hold_mono [of s s1 P] by (intro safe_handleRejection r) auto
qed

lemma newTypeError_sound:
  assumes "newTypeError msg s = (e, s1)" and "sound P s"
  shows "sound P s1" and "promises s1 = promises s"
proof -
  from assms(1) have s1: "s1 = s\<lparr> nextOid := Suc (nextOid s) \<rparr>"
    by (simp add: newTypeError_def)
  then show "promises s1 = promises s" by simp
  from assms(2) show "sound P s1" unfolding s1 by (rule sound_same) simp_all
qed

lemma safe_throwTypeError:
  assumes "sound P s"
  shows "safe P s (let (e, s1) = newTypeError msg s in Some (Throw e, s1))"
proof -
  obtain e s1 where n: "newTypeError msg s = (e, s1)" by (cases "newTypeError msg s")
  from newTypeError_sound [OF n assms] n show ?thesis by (simp add: safe_Some)
qed

lemma safe_adopt:
  assumes r: "rec_safe P rec" and s: "sound P s" and p: "p \<in> may_hold P s"
  shows "safe P s (adopt rec p v s)"
  using p safe_throwTypeError [OF s, of "''value.then is not a function''"]
  by (cases v) (simp_all add: adopt_def safe_then_internal [OF r s] safe_run_actions [OF r s])

lemma safe_resolveFn:
  assumes r: "rec_safe P rec" and s: "sound P s" and p: "p \<in> may_hold P s"
  shows "safe P s (resolveFn rec p v s)"
proof -
  from may_holdD [OF p] have pl: "p < length (promises s)" and pP: "p \<notin> P" by simp_all
  show ?thesis
  proof (cases "p_state (promises s ! p)")
    case (Some st)
    then show ?thesis using s by (simp add: resolveFn_def safe_ret)
  next
    case None
    show ?thesis
    proof (cases "strict_eq v (PromiseRef p)")
      case True
      then show ?thesis
        using None safe_throwTypeError [OF s, of "''A promise cannot be resolved with itself.''"]
        by (simp add: resolveFn_def)
    next
      case False
      obtain b s1 where ls: "libScope p s = (b, s1)" by (cases "libScope p s")
      from libScope_sound [OF ls s] have s1: "sound P s1" and p1: "promises s1 = promises s"
        by simp_all
      have p1': "p \<in> may_hold P s1" using p by (simp add: may_hold_def p1)
      let ?s2 = "set_promise p (\<lambda>pr. pr\<lparr> p_state := Some True, p_value := v \<rparr>) s1"
      have s2: "sound P ?s2" using s1 pP by (rule sound_settle) (simp add: p1 None)
      have l2: "length (promises ?s2) = length (promises s1)" by (simp add: set_promise_fields)
      have a: "safe P s1 (executePromiseTask rec p (adopt rec p v) s1)"
        by (intro safe_executePromiseTask safe_adopt r s1 p1')
      have "safe P ?s2 (propagateAllListeners rec p ?s2)"
        by (intro safe_propagateAllListeners r s2) (simp add: l2 p1 pl)
      then have b: "safe P s1 (propagateAllListeners rec p ?s2)" using l2 by (rule safe_same)
      have "safe P s1 (bind_r
              (if is_thenable v then executePromiseTask rec p (adopt rec p v) s1
               else propagateAllListeners rec p ?s2)
              (\<lambda>_ s2. if b then rec CEndMicroTick s2 else ret Undefined s2))"
        by (intro safe_bind safe_tail r) (simp_all add: a b)
      then have "safe P s (bind_r
              (if is_thenable v then executePromiseTask rec p (adopt rec p v) s1
               else propagateAllListeners rec p ?s2)
              (\<lambda>_ s2. if b then rec CEndMicroTick s2 else ret Undefined s2))"
        by (rule safe_same) (simp add: p1)
      then show ?thesis using None False ls by (simp add: resolveFn_def)
    qed
  qed
qed

lemma safe_PromiseInternal:
  assumes r: "rec_safe P rec" and s: "sound P s"
  shows "safe P s (PromiseInternal rec st v s)"
proof -
  let ?pr = "\<lparr> p_state = Some st, p_value = v, p_listeners = [], p_PSD = PSD s, p_lib = False \<rparr>"
  let ?s1 = "s\<lparr> promises := promises s @ [?pr] \<rparr>"
  let ?p = "length (promises s)"
  have s1: "sound P ?s1" using s by (rule sound_alloc) simp
  have "?p \<notin> P" using soundD(3) [OF s, of ?p] by auto
  then have p: "?p \<in> may_hold P ?s1" by (simp add: may_hold_def)
  have "safe P ?s1 (if st = False then handleRejection rec ?p v ?s1 else ret Undefined ?s1)"
  proof (cases st)
    case True
    then show ?thesis using s1 by (simp add: safe_ret)
  next
    case False
    then show ?thesis using safe_handleRejection [OF r s1 p, of v] by simp
  qed
  then have "safe P ?s1 (bind_r (if st = False then handleRejection rec ?p v ?s1 else ret Undefined ?s1)
           (\<lambda>_. ret (PromiseRef ?p)))"
    by (rule safe_bind) (simp add: safe_ret)
  then have "safe P s (bind_r (if st = False then handleRejection rec ?p v ?s1 else ret Undefined ?s1)
           (\<lambda>_. ret (PromiseRef ?p)))"
    by (rule safe_weaken) simp
  then show ?thesis by (simp add: PromiseInternal_def alloc_def)
qed

lemma switchToZone_sound:
  "sound P s \<Longrightarrow> sound P (switchToZone z s)"
  "promises (switchToZone z s) = promises s"
proof -
  show p: "promises (switchToZone z s) = promises s" by (simp add: switchToZone_def)
  assume "sound P s"
  then show "sound P (switchToZone z s)"
    by (rule sound_same) (simp_all add: p, simp_all add: switchToZone_def)
qed

lemma safe_callFn:
  assumes r: "rec_safe P rec" and s: "sound P s" and f: "caps f \<subseteq> may_hold P s"
  shows "safe P s (callFn rec f v s)"
proof (cases f)
  case (ResolveFn p)
  then show ?thesis using f by (simp add: callFn_def safe_resolveFn [OF r s])
next
  case (RejectFn p)
  then show ?thesis using f by (simp add: callFn_def safe_handleRejection [OF r s])
next
  case (UserFn i body)
  have "sound P (s\<lparr> trace := trace s @ [Called i v] \<rparr>)"
    using s by (rule sound_same) simp_all
  then show ?thesis using UserFn by (simp add: callFn_def safe_Some)
next
  case (CatchType type handler)
  have "safe P s (rec (CCall handler v) s)"
    using r s by (rule safe_rec) (use f CatchType in \<open>simp add: ccaps_def\<close>)
  then show ?thesis
    using CatchType by (simp add: callFn_def PromiseReject_def safe_PromiseInternal [OF r s])
next
  case (CatchName type handler)
  have "safe P s (rec (CCall handler v) s)"
    using r s by (rule safe_rec) (use f CatchName in \<open>simp add: ccaps_def\<close>)
  then show ?thesis
    using CatchName by (simp add: callFn_def PromiseReject_def safe_PromiseInternal [OF r s])
next
  case (FinallyThen g)
  have "safe P s (rec (CCall g Undefined) s)"
    using r s by (rule safe_rec) (use f FinallyThen in \<open>simp add: ccaps_def\<close>)
  then have "safe P s (bind_r (rec (CCall g Undefined) s) (\<lambda>_. ret v))"
    by (rule safe_bind) (simp add: safe_ret)
  then show ?thesis using FinallyThen by (simp add: callFn_def)
next
  case (FinallyErr g)
  have "safe P s (rec (CCall g Undefined) s)"
    using r s by (rule safe_rec) (use f FinallyErr in \<open>simp add: ccaps_def\<close>)
  then have "safe P s (bind_r (rec (CCall g Undefined) s) (\<lambda>_. PromiseReject rec v))"
    by (rule safe_bind) (simp add: PromiseReject_def safe_PromiseInternal [OF r])
  then show ?thesis using FinallyErr by (simp add: callFn_def)
next
  case (ZoneWrap zone g)
  note sw = switchToZone_sound(1) and pz = switchToZone_sound(2)
  have "safe P (switchToZone zone s) (rec (CCall g v) (switchToZone zone s))"
    using r sw [OF s] by (rule safe_rec) (use f ZoneWrap in \<open>simp add: ccaps_def may_hold_def pz\<close>)
  then have "safe P s (rec (CCall g v) (switchToZone zone s))"
    by (rule safe_same) (simp add: pz)
  then have "safe P s (try_finally (rec (CCall g v) (switchToZone zone s))
                (\<lambda>s'. ret Undefined (switchToZone (PSD s) s')))"
    by (rule safe_try_finally) (simp add: safe_ret sw pz)
  then show ?thesis using ZoneWrap by (simp add: callFn_def Let_def)
qed

lemma safe_callListener:
  assumes r: "rec_safe P rec" and s: "sound P s"
    and cb: "caps cb \<subseteq> may_hold P s" and l: "lcaps l \<subseteq> may_hold P s"
  shows "safe P s (callListener rec cb p l s)"
proof -
  let ?v = "p_value (promises s ! p)"
  let ?s1 = "if rejectingErrors s \<noteq> [] then s\<lparr> rejectingErrors := [] \<rparr> else s"
  have mono: "\<And>s1 f. length (promises s) \<le> length (promises s1) \<Longrightarrow>
      caps f \<subseteq> may_hold P s \<Longrightarrow> caps f \<subseteq> may_hold P s1"
    using may_hold_mono [of s _ P] by blast
  have res: "caps (resolve l) \<subseteq> may_hold P s" and rej: "caps (reject l) \<subseteq> may_hold P s"
    using l by (auto simp: lcaps_def)
  have call: "\<And>f v s1. sound P s1 \<Longrightarrow> length (promises s) \<le> length (promises s1) \<Longrightarrow>
      caps f \<subseteq> may_hold P s \<Longrightarrow> safe P s1 (rec (CCall f v) s1)"
    using mono by (intro safe_rec r) (simp_all add: ccaps_def)
  have s1: "sound P ?s1" using s by (rule sound_same) simp_all
  have l1: "length (promises ?s1) = length (promises s)" by simp
  have a: "safe P s (bind_r (rec (CCall cb ?v) s) (\<lambda>r. rec (CCall (resolve l) r)))"
    by (intro safe_bind call s cb res) simp_all
  have "safe P ?s1 (bind_r (rec (CCall cb ?v) ?s1) (\<lambda>r s2.
          rec (CCall (resolve l) r)
            (if \<not> list_ex (\<lambda>x. strict_eq x ?v) (rejectingErrors s2)
             then markErrorAsHandled p s2 else s2)))"
  proof (intro safe_bind call s1 cb)
    fix v s2
    assume s2: "sound P s2" and le: "length (promises ?s1) \<le> length (promises s2)"
    let ?s3 = "if \<not> list_ex (\<lambda>x. strict_eq x ?v) (rejectingErrors s2)
               then markErrorAsHandled p s2 else s2"
    have s3: "sound P ?s3" using s2 by (simp add: sound_mark)
    have l3: "length (promises ?s3) = length (promises s2)" by (simp add: promises_unchanged)
    have "safe P ?s3 (rec (CCall (resolve l) v) ?s3)"
      using s3 by (rule call) (use le l1 l3 res in \<open>simp_all split: if_splits\<close>)
    then show "safe P s2 (rec (CCall (resolve l) v) ?s3)" using l3 by (rule safe_same)
  qed simp
  then have b: "safe P s (bind_r (rec (CCall cb ?v) ?s1) (\<lambda>r s2.
          rec (CCall (resolve l) r)
            (if \<not> list_ex (\<lambda>x. strict_eq x ?v) (rejectingErrors s2)
             then markErrorAsHandled p s2 else s2)))"
    using l1 by (rule safe_same)
  have "safe P s (try_finally
           (try_catch
              (if p_state (promises s ! p) = Some True
               then bind_r (rec (CCall cb ?v) s) (\<lambda>r. rec (CCall (resolve l) r))
               else bind_r (rec (CCall cb ?v) ?s1) (\<lambda>r s2.
                       rec (CCall (resolve l) r)
                         (if \<not> list_ex (\<lambda>x. strict_eq x ?v) (rejectingErrors s2)
                          then markErrorAsHandled p s2 else s2)))
              (\<lambda>e. rec (CCall (reject l) e)))
           (\<lambda>s'. decRef rec (psd l) (scheduledCallDone s')))"
  proof (intro safe_try_finally safe_try_catch)
    show "safe P s (if p_state (promises s ! p) = Some True
               then bind_r (rec (CCall cb ?v) s) (\<lambda>r. rec (CCall (resolve l) r))
               else bind_r (rec (CCall cb ?v) ?s1) (\<lambda>r s2.
                       rec (CCall (resolve l) r)
                         (if \<not> list_ex (\<lambda>x. strict_eq x ?v) (rejectingErrors s2)
                          then markErrorAsHandled p s2 else s2)))"
      using a b by simp
  next
    fix e s1
    assume "sound P s1" "length (promises s) \<le> length (promises s1)"
    then show "safe P s1 (rec (CCall (reject l) e) s1)" using rej by (rule call)
  next
    fix s1
    assume s1: "sound P s1"
    have "safe P (scheduledCallDone s1) (decRef rec (psd l) (scheduledCallDone s1))"
      by (intro safe_decRef r sound_scheduledCallDone s1)
    then show "safe P s1 (decRef rec (psd l) (scheduledCallDone s1))"
      by (rule safe_same) (simp add: promises_unchanged)
  qed
  then show ?thesis unfolding callListener_def Let_def .
qed

lemma safe_runTask:
  assumes r: "rec_safe P rec" and s: "sound P s" and t: "tcaps t \<subseteq> may_hold P s"
  shows "safe P s (runTask rec t s)"
proof (cases t)
  case (CallListener cb p l)
  then show ?thesis
    using t by (simp add: runTask_def tcaps_def safe_callListener [OF r s])
next
  case ScheduledCallDone
  then show ?thesis
    using sound_scheduledCallDone [OF s]
    by (simp add: runTask_def safe_ret promises_unchanged)
qed

lemma safe_endMicroTickScope:
  assumes r: "rec_safe P rec" and s: "sound P s"
  shows "safe P s (endMicroTickScope rec s)"
proof (cases "microtickQueue s = []")
  case True
  have "sound P (s\<lparr> isOutsideMicroTick := True, needsNewPhysicalTick := True \<rparr>)"
    using s by (rule sound_same) simp_all
  then show ?thesis using True by (simp add: endMicroTickScope_def safe_ret)
next
  case False
  let ?s1 = "s\<lparr> microtickQueue := [] \<rparr>"
  have s1: "sound P ?s1" using s by (rule sound_queue) simp
  have "safe P ?s1 (bind_r (forEach (runTask rec) (microtickQueue s) ?s1)
           (\<lambda>_. rec CEndMicroTick))"
  proof (intro safe_bind safe_forEach s1)
    fix t s2
    assume "t \<in> set (microtickQueue s)" "sound P s2"
      "length (promises ?s1) \<le> length (promises s2)"
    then show "safe P s2 (runTask rec t s2)"
      using soundD(2) [OF s, of t] may_hold_mono [of s s2 P]
      by (intro safe_runTask r) auto
  next
    fix v s2
    assume "sound P s2"
    then show "safe P s2 (rec CEndMicroTick s2)"
      by (intro safe_rec r) (simp_all add: ccaps_def)
  qed
  then have "safe P s (bind_r (forEach (runTask rec) (microtickQueue s) ?s1)
           (\<lambda>_. rec CEndMicroTick))"
    by (rule safe_same) simp
  then show ?thesis using False by (simp add: endMicroTickScope_def Let_def)
qed

lemma rec_safe_exec: "rec_safe P (exec n)"
proof (induction n)
  case 0
  show ?case by (simp add: rec_safe_def safe_None)
next
  case (Suc n)
  show ?case
    unfolding rec_safe_def
  proof (intro allI impI)
    fix c s
    assume s: "sound P s" and c: "ccaps c \<subseteq> may_hold P s"
    show "safe P s (exec (Suc n) c s)"
    proof (cases c)
      case (CCall f v)
      then show ?thesis
        using c by (simp add: ccaps_def safe_callFn [OF Suc s])
    next
      case CEndMicroTick
      then show ?thesis by (simp add: safe_endMicroTickScope [OF Suc s])
    next
      case (CFinalize z)
      then show ?thesis by (simp add: safe_finalize [OF Suc s])
    qed
  qed
qed

lemma safe_PromiseCtor:
  assumes r: "rec_safe P rec" and s: "sound P s"
    and f: "\<And>p s2. sound P s2 \<Longrightarrow> p \<in> may_hold P s2 \<Longrightarrow>
              length (promises s) \<le> length (promises s2) \<Longrightarrow> safe P s2 (fn p s2)"
  shows "safe P s (PromiseCtor rec fn s)"
proof -
  let ?pr = "\<lparr> p_state = None, p_value = Null, p_listeners = [], p_PSD = PSD s, p_lib = False \<rparr>"
  let ?s1 = "s\<lparr> promises := promises s @ [?pr] \<rparr>"
  let ?s2 = "set_ref (PSD s) (z_ref (zones ?s1 ! PSD s) + 1) ?s1"
  let ?p = "length (promises s)"
  have s1: "sound P ?s1" using s by (rule sound_alloc) simp
  then have s2: "sound P ?s2" by (rule sound_same) (simp_all add: set_ref_def)
  have "?p \<notin> P" using soundD(3) [OF s, of ?p] by auto
  then have p: "?p \<in> may_hold P ?s2" by (simp add: may_hold_def set_ref_def)
  have "safe P ?s2 (bind_r (executePromiseTask rec ?p (fn ?p) ?s2) (\<lambda>_. ret (PromiseRef ?p)))"
    by (intro safe_bind safe_executePromiseTask r s2 p f) (simp_all add: safe_ret set_ref_def)
  then have "safe P s (bind_r (executePromiseTask rec ?p (fn ?p) ?s2) (\<lambda>_. ret (PromiseRef ?p)))"
    by (rule safe_weaken) (simp add: set_ref_def)
  then show ?thesis by (simp add: PromiseCtor_def alloc_def Let_def)
qed

lemma safe_then_orig:
  assumes r: "rec_safe P rec" and s: "sound P s"
    and f: "ocaps onF \<subseteq> may_hold P s" "ocaps onR \<subseteq> may_hold P s"
  shows "safe P s (then_orig rec this onF onR s)"
  unfolding then_orig_def
proof (intro safe_PromiseCtor r s)
  fix p s2
  assume s2: "sound P s2" and p: "p \<in> may_hold P s2"
    and le: "length (promises s) \<le> length (promises s2)"
  have "ocaps onF \<subseteq> may_hold P s2" "ocaps onR \<subseteq> may_hold P s2"
    using f may_hold_mono [OF le, of P] by auto
  then show "safe P s2 (propagateToListener rec this
                  (Listener onF onR (ResolveFn p) (RejectFn p) (PSD s2)) s2)"
    using p by (intro safe_propagateToListener r s2) (simp add: lcaps_Listener)
qed

lemma ocaps_wrap: "ocaps (nativeAwaitCompatibleWrap f z) = ocaps f"
  by (cases f) (simp_all add: nativeAwaitCompatibleWrap_def ocaps_def)

lemma safe_Promise_then:
  assumes r: "rec_safe P rec" and s: "sound P s"
    and f: "ocaps onF \<subseteq> may_hold P s" "ocaps onR \<subseteq> may_hold P s"
  shows "safe P s (Promise_then rec this onF onR s)"
  using f by (simp add: Promise_then_def safe_then_orig [OF r s] ocaps_wrap)

lemma safe_Promise_catch:
  assumes r: "rec_safe P rec" and s: "sound P s"
    and f: "opcaps (Catch this args) \<subseteq> may_hold P s"
  shows "safe P s (Promise_catch rec this args s)"
proof (cases args)
  case (Catch1 onRej)
  then show ?thesis
    using f by (simp add: Promise_catch_def safe_Promise_then [OF r s] ocaps_def)
next
  case (Catch2 type handler)
  then show ?thesis
    using f by (cases type) (simp_all add: Promise_catch_def safe_Promise_then [OF r s] ocaps_def)
qed

lemma safe_Promise_finally:
  assumes r: "rec_safe P rec" and s: "sound P s" and f: "caps onFinally \<subseteq> may_hold P s"
  shows "safe P s (Promise_finally rec this onFinally s)"
  using f by (simp add: Promise_finally_def safe_Promise_then [OF r s] ocaps_def)

lemma safe_Promise_resolve:
  assumes r: "rec_safe P rec" and s: "sound P s"
  shows "safe P s (Promise_resolve rec v s)"
proof (cases v)
  case (Thenable i acts)
  have "safe P s (PromiseCtor rec (\<lambda>p. run_actions rec (ResolveFn p) (RejectFn p) acts) s)"
    by (intro safe_PromiseCtor safe_run_actions r s) simp_all
  then show ?thesis using Thenable by (simp add: Promise_resolve_def)
qed (simp_all add: Promise_resolve_def safe_PromiseInternal [OF r s] safe_ret s)

lemma safe_Promise_race:
  assumes r: "rec_safe P rec" and s: "sound P s"
  shows "safe P s (Promise_race rec values s)"
  unfolding Promise_race_def
proof (intro safe_PromiseCtor r s safe_forEach)
  fix p s2 v s1
  assume p: "p \<in> may_hold P s2" and s1: "sound P s1"
    and le: "length (promises s2) \<le> length (promises s1)"
  show "safe P s1 (bind_r (Promise_resolve rec v s1) (\<lambda>q s2.
                 case q of
                   PromiseRef qi \<Rightarrow>
                     Promise_then rec qi (Some (ResolveFn p)) (Some (RejectFn p)) s2
                 | _ \<Rightarrow> ret Undefined s2))"
  proof (intro safe_bind safe_Promise_resolve r s1)
    fix q s3
    assume s3: "sound P s3" and le3: "length (promises s1) \<le> length (promises s3)"
    have "p \<in> may_hold P s3" using p le le3 may_hold_mono [of s2 s3 P] by auto
    then have "safe P s3 (Promise_then rec qi (Some (ResolveFn p)) (Some (RejectFn p)) s3)" for qi
      by (intro safe_Promise_then r s3) (simp_all add: ocaps_def)
    then show "safe P s3 (case q of
                   PromiseRef qi \<Rightarrow>
                     Promise_then rec qi (Some (ResolveFn p)) (Some (RejectFn p)) s3
                 | _ \<Rightarrow> ret Undefined s3)"
      using s3 by (cases q) (simp_all add: safe_ret)
  qed
qed

lemma safe_physicalTick:
  assumes r: "rec_safe P rec" and s: "sound P s"
  shows "safe P s (physicalTick rec s)"
proof -
  let ?s1 = "s\<lparr> isOutsideMicroTick := False, needsNewPhysicalTick := False \<rparr>"
  have s1: "sound P ?s1" using s by (rule sound_same) simp_all
  have "safe P ?s1 (endMicroTickScope rec ?s1)" by (intro safe_endMicroTickScope r s1)
  then have "safe P s (endMicroTickScope rec ?s1)" by (rule safe_same) simp
  then show ?thesis
    using s1 by (simp add: physicalTick_def beginMicroTickScope_def safe_ret)
qed

lemma safe_run_op:
  assumes s: "sound P s" and c: "opcaps c \<subseteq> may_hold P s"
  shows "safe P s (run_op n c s)"
proof -
  note r = rec_safe_exec [of P n]
  show ?thesis
  proof (cases c)
    case (New acts)
    have "safe P s (PromiseCtor (exec n)
            (\<lambda>p. run_actions (exec n) (ResolveFn p) (RejectFn p) acts) s)"
      by (intro safe_PromiseCtor safe_run_actions r s) simp_all
    then show ?thesis using New by (simp add: run_op_def)
  next
    case (Resolve p v)
    then show ?thesis using c by (simp add: run_op_def safe_rec [OF r s] ccaps_def)
  next
    case (Reject p v)
    then show ?thesis using c by (simp add: run_op_def safe_rec [OF r s] ccaps_def)
  next
    case (Then p onF onR)
    then show ?thesis using c by (simp add: run_op_def safe_Promise_then [OF r s])
  next
    case (Catch p args)
    then show ?thesis using c by (simp add: run_op_def safe_Promise_catch [OF r s])
  next
    case (Finally p f)
    then show ?thesis using c by (simp add: run_op_def safe_Promise_finally [OF r s])
  next
    case (StaticResolve v)
    then show ?thesis by (simp add: run_op_def safe_Promise_resolve [OF r s])
  next
    case (StaticReject v)
    then show ?thesis by (simp add: run_op_def PromiseReject_def safe_PromiseInternal [OF r s])
  next
    case (Race vs)
    then show ?thesis by (simp add: run_op_def safe_Promise_race [OF r s])
  next
    case (SetMapper f)
    have "sound P (s\<lparr> rejectionMapper := f \<rparr>)" using s by (rule sound_same) simp_all
    then show ?thesis using SetMapper by (simp add: run_op_def safe_ret)
  next
    case Tick
    then show ?thesis by (simp add: run_op_def safe_physicalTick [OF r s])
  qed
qed

lemma sound_init: "sound {} init"
  by (simp add: sound_def init_def)

lemma reachable_sound: "reachable s \<Longrightarrow> sound {} s"
proof (induction rule: reachable.induct)
  case start
  show ?case by (rule sound_init)
next
  case (step s c n out s')
  from step.hyps(2) have "opcaps c \<subseteq> may_hold {} s" by (simp add: may_hold_def)
  from safe_run_op [OF step.IH this, of n] step.hyps(3) show ?case
    by (simp add: safe_def)
qed

lemma safe_ticks: "sound P s \<Longrightarrow> safe P s (ticks n k s)"
proof (induction k arbitrary: s)
  case 0
  then show ?case by (simp add: safe_ret)
next
  case (Suc k)
  show ?case
    by (simp, intro safe_bind safe_physicalTick rec_safe_exec Suc.prems Suc.IH)
qed

lemma sound_alloc_held:
  assumes s: "sound P s" and pr: "p_listeners pr = []" "p_state pr = None"
  shows "sound (insert (length (promises s)) P) (s\<lparr> promises := promises s @ [pr] \<rparr>)"
proof -
  let ?s' = "s\<lparr> promises := promises s @ [pr] \<rparr>"
  let ?P = "insert (length (promises s)) P"
  have s': "sound P ?s'" using s pr(1) by (rule sound_alloc)
  note a = soundD [OF s']
  have PN: "\<And>q. q \<in> P \<Longrightarrow> q < length (promises s)" using soundD(3) [OF s] by simp
  have m: "may_hold ?P ?s' = may_hold P s" using PN by (auto simp: may_hold_def)
  show ?thesis
  proof (rule soundI)
    fix i l
    assume i: "i < length (promises ?s')" and l: "l \<in> set (p_listeners (promises ?s' ! i))"
    show "lcaps l \<subseteq> may_hold ?P ?s'"
    proof (cases "i < length (promises s)")
      case True
      with l have "l \<in> set (p_listeners (promises s ! i))" by (simp add: nth_append)
      from soundD(1) [OF s True this] show ?thesis by (simp add: m)
    next
      case False
      with i have "i = length (promises s)" by simp
      with l pr(1) show ?thesis by simp
    qed
  next
    fix t
    assume "t \<in> set (microtickQueue ?s')"
    then have "t \<in> set (microtickQueue s)" by simp
    from soundD(2) [OF s this] show "tcaps t \<subseteq> may_hold ?P ?s'" by (simp add: m)
  next
    fix q
    assume "q \<in> ?P"
    then show "q < length (promises ?s') \<and> p_state (promises ?s' ! q) = None"
      using a(3) [of q] pr(2) by auto
  next
    fix q
    assume "q \<in> set (unhandledErrors ?s')"
    then show "q < length (promises ?s') \<and> p_state (promises ?s' ! q) \<noteq> None"
      by (rule a(4))
  next
    show "one_per_reason (reason_of ?s') (unhandledErrors ?s')" by (rule a(5))
  qed
qed

section \<open>Reachable states\<close>

lemma reachable_run_ops:
  "reachable s \<Longrightarrow> ops_ok n ops s \<Longrightarrow> run_ops n ops s = Some s' \<Longrightarrow> reachable s'"
proof (induction ops arbitrary: s)
  case Nil
  then show ?case by simp
next
  case (Cons c cs)
  from Cons.prems(3) obtain out s1 where c: "run_op n c s = Some (out, s1)"
    and cs: "run_ops n cs s1 = Some s'"
    by (auto split: option.splits)
  from Cons.prems(2) c have ok: "opcaps c \<subseteq> {..<length (promises s)}" "ops_ok n cs s1"
    by simp_all
  from Cons.prems(1) ok(1) c have "reachable s1" by (rule reachable.step)
  from Cons.IH [OF this ok(2) cs] show ?case .
qed

section \<open>C5: one unhandled promise for each reason\<close>

lemma reachable_one_per_reason:
  "reachable s \<Longrightarrow> one_per_reason (reason_of s) (unhandledErrors s)"
  by (rule soundD(5) [OF reachable_sound])

text \<open>
  C5 at the failing input: \<open>var p0 = Promise.reject('x'); var p1 = p0.then();\<close>.
  \<open>new Promise(INTERNAL, false, 'x')\<close> sets \<open>_state\<close> before it calls \<open>handleRejection\<close>,
  which therefore returns at \<open>if (promise._state !== null) return\<close> and never reaches
  \<open>addPossiblyUnhandledError\<close>: the list of unhandled rejections stays empty. \<open>then\<close>
  without handlers forwards the rejection to the promise it returns, and this promise
  \<open>p1\<close>, not the root cause \<open>p0\<close>, is the one recorded for the reason \<open>'x'\<close>.
\<close>

theorem C5_root_cause_not_recorded:
  "(case run_ops 3 [StaticReject (Str ''x'')] init of
      Some s \<Rightarrow>
        p_state (promises s ! 0) = Some False \<and> p_value (promises s ! 0) = Str ''x'' \<and>
        unhandledErrors s = []
    | None \<Rightarrow> False) \<and>
   (case run_ops 3 [StaticReject (Str ''x''), Then 0 None None] init of
      Some s \<Rightarrow>
        p_state (promises s ! 0) = Some False \<and> p_value (promises s ! 0) = Str ''x'' \<and>
        p_state (promises s ! 1) = Some False \<and> p_value (promises s ! 1) = Str ''x'' \<and>
        unhandledErrors s = [1]
    | None \<Rightarrow> False)"
  by code_simp

section \<open>C9: race of nothing\<close>

text \<open>
  C9: \<open>Promise.race([])\<close> returns a pending promise without listeners and queues nothing.
  With nothing queued, any number \<open>k\<close> of physical ticks (each drains the queue in a
  virtual tick) return and leave the promise pending; and in a state that a client has
  reached, whatever is queued there, the promise is pending after \<open>k\<close> ticks whenever
  they return: nobody holds a capability of it.
\<close>

theorem C9_race_of_nothing_stays_pending:
  "\<exists>s1. Promise_race (exec n) [] s = Some (Return (PromiseRef (length (promises s))), s1) \<and>
     p_state (promises s1 ! length (promises s)) = None \<and>
     p_listeners (promises s1 ! length (promises s)) = [] \<and>
     microtickQueue s1 = microtickQueue s \<and>
     (microtickQueue s = [] \<longrightarrow>
        (\<exists>v s'. ticks m k s1 = Some (Return v, s') \<and>
                p_state (promises s' ! length (promises s)) = None)) \<and>
     (reachable s \<longrightarrow>
        (\<forall>out s'. ticks m k s1 = Some (out, s') \<longrightarrow>
                  p_state (promises s' ! length (promises s)) = None))"
proof -
  let ?s0 = "s\<lparr> promises := promises s @ [pending_promise (PSD s)] \<rparr>"
  let ?s1 = "set_ref (PSD s) (z_ref (zones s ! PSD s) + 1) ?s0"
  let ?rv = "length (promises s)"
  have q1: "microtickQueue ?s1 = microtickQueue s" by (simp add: set_ref_def)
  have p1: "promises ?s1 ! ?rv = pending_promise (PSD s)"
    by (simp add: set_ref_def)
  have idle: "\<exists>v s'. ticks m k ?s1 = Some (Return v, s') \<and> p_state (promises s' ! ?rv) = None"
    if "microtickQueue s = []"
  proof -
    from that q1 have "microtickQueue ?s1 = []" by simp
    from ticks_idle [OF this, of m k] obtain s' v where
      "ticks m k ?s1 = Some (Return v, s')" "promises s' = promises ?s1" by blast
    with p1 show ?thesis by (simp add: pending_promise_def)
  qed
  have busy: "p_state (promises s' ! ?rv) = None"
    if r: "reachable s" and t: "ticks m k ?s1 = Some (out, s')" for out s'
  proof -
    from reachable_sound [OF r] have "sound (insert ?rv {}) ?s0"
      by (rule sound_alloc_held) (simp_all add: pending_promise_def)
    then have "sound {?rv} ?s1" by (rule sound_same) (simp_all add: set_ref_def)
    from safe_ticks [OF this, of m k] t have "sound {?rv} s'" by (simp add: safe_def)
    from soundD(3) [OF this, of ?rv] show ?thesis by simp
  qed
  show ?thesis
    using q1 p1 idle busy by (simp add: Promise_race_Nil pending_promise_def)
qed

theorem C9_witness:
  "microtickQueue init = [] \<and>
   (\<exists>s1 v s'. Promise_race (exec 5) [] init = Some (Return (PromiseRef 0), s1) \<and>
       ticks 5 7 s1 = Some (Return v, s') \<and> p_state (promises s' ! 0) = None) \<and>
   (\<exists>s. run_ops 4 busy init = Some s \<and> reachable s \<and> microtickQueue s \<noteq> [] \<and>
       (\<exists>s1 v s'. Promise_race (exec 5) [] s = Some (Return (PromiseRef 2), s1) \<and>
           ticks 5 1 s1 = Some (Return v, s') \<and> calls_of 0 (trace s') = [Num 1] \<and>
           p_state (promises s' ! 2) = None))"
proof -
  have h: "microtickQueue init = []" by (simp add: init_def)
  have l0: "length (promises init) = 0" by (simp add: init_def)
  from C9_race_of_nothing_stays_pending [of 5 init 5 7] h l0
  have a: "\<exists>s1 v s'. Promise_race (exec 5) [] init = Some (Return (PromiseRef 0), s1) \<and>
       ticks 5 7 s1 = Some (Return v, s') \<and> p_state (promises s' ! 0) = None"
    by auto
  have ok: "ops_ok 4 busy init" by code_simp
  have "map_option (\<lambda>s. (length (promises s), microtickQueue s \<noteq> [])) (run_ops 4 busy init) =
        Some (2, True)"
    by code_simp
  then obtain s where run: "run_ops 4 busy init = Some s" and l: "length (promises s) = 2"
    and q: "microtickQueue s \<noteq> []"
    by auto
  from reachable.start ok run have r: "reachable s" by (rule reachable_run_ops)
  from C9_race_of_nothing_stays_pending [of 5 s 5 1] l r obtain s1 where
    race: "Promise_race (exec 5) [] s = Some (Return (PromiseRef 2), s1)"
    and pend: "\<And>out s'. ticks 5 1 s1 = Some (out, s') \<Longrightarrow> p_state (promises s' ! 2) = None"
    by auto
  have "(case run_ops 4 busy init of None \<Rightarrow> None
         | Some s \<Rightarrow>
             (case Promise_race (exec 5) [] s of None \<Rightarrow> None
              | Some (out, s1) \<Rightarrow>
                  map_option (\<lambda>(out', s'). (out', calls_of 0 (trace s'))) (ticks 5 1 s1))) =
        Some (Return Undefined, [Num 1])"
    by code_simp
  then have "map_option (\<lambda>(out', s'). (out', calls_of 0 (trace s'))) (ticks 5 1 s1) =
        Some (Return Undefined, [Num 1])"
    by (simp only: run race option.case prod.case)
  then obtain s' where t: "ticks 5 1 s1 = Some (Return Undefined, s')"
    and c: "calls_of 0 (trace s') = [Num 1]"
    by (auto simp del: ticks.simps)
  from pend [OF t] run r q race t c have
    "\<exists>s. run_ops 4 busy init = Some s \<and> reachable s \<and> microtickQueue s \<noteq> [] \<and>
       (\<exists>s1 v s'. Promise_race (exec 5) [] s = Some (Return (PromiseRef 2), s1) \<and>
           ticks 5 1 s1 = Some (Return v, s') \<and> calls_of 0 (trace s') = [Num 1] \<and>
           p_state (promises s' ! 2) = None)"
    by blast
  with h a show ?thesis by simp
qed

end
